theory Spec2Isabelle
  imports Complex_Main "HOL-Library.Word" "HOL-Library.Stream" "HOL-Library.Multiset"
begin

section \<open>Conventions of the embedding\<close>

text \<open>
  The development embeds the feed-forward network (class \<open>MLP\<close>), the genetic
  algorithm (class \<open>GeneticAlgorithm\<close>) and the random helpers of namespace
  \<open>Utils\<close>.

  \<^item> A C++ \<open>double\<close> is a \<^typ>\<open>real\<close>. Rounding to the nearest double is modelled
    where a property depends on it: in \<open>MLP::sigmoid\<close> and \<open>MLP::tanh_activation\<close>,
    and in the product that \<open>replacePopulation\<close> casts to \<open>int\<close>. The weighted sums of
    \<open>forward\<close>, the mutation of a gene and the average fitness are computed exactly;
    there, rounding, overflow to infinity and NaN are outside the model.
  \<^item> A C++ \<open>int\<close> is an \<^typ>\<open>int\<close>; sizes are assumed to stay below \<open>2^31\<close>,
    so no signed overflow is modelled.
  \<^item> A \<open>std::vector\<close> is a list. A member function that mutates its object takes the
    object and returns the new one.
  \<^item> A thrown exception is a value of type \<open>failure\<close>. Reading or writing a vector
    out of range, and dereferencing an end iterator, is \<open>undefined_behaviour\<close>.
\<close>

datatype failure =
    invalid_argument string
  | runtime_error string
  | length_error
  | bad_function_call
  | undefined_behaviour

abbreviation InvalidTopology :: failure where
  "InvalidTopology \<equiv> invalid_argument ''Network must have at least input and output layers''"

abbreviation GenomeSizeMismatch :: failure where
  "GenomeSizeMismatch \<equiv> invalid_argument ''Chromosome size mismatch''"

abbreviation InputSizeMismatch :: failure where
  "InputSizeMismatch \<equiv> invalid_argument ''Input size mismatch''"

abbreviation ConfigurationError :: failure where
  "ConfigurationError \<equiv> runtime_error ''Fitness function not set''"

section \<open>Rounding to double precision\<close>

text \<open>
  An IEEE 754 binary64 number has 53 significant bits and a least exponent of -1022.
  \<open>double_round x\<close> is the multiple of the unit in the last place of \<open>x\<close> nearest
  to \<open>x\<close>, the even one on a tie; numbers below \<open>2^-1022\<close> share the unit
  \<open>2^-1074\<close>. A result whose magnitude reaches \<open>2^1024 - 2^970\<close> rounds to
  infinity in the machine; \<open>double_overflows\<close> tells.
\<close>

definition pow2 :: "int \<Rightarrow> real" where
  "pow2 k = (if 0 \<le> k then 2 ^ nat k else 1 / 2 ^ nat (- k))"

definition round_half_even :: "real \<Rightarrow> int" where
  "round_half_even r =
     (let n = \<lfloor>r\<rfloor>; d = r - of_int n
      in if d < 1 / 2 then n else if 1 / 2 < d then n + 1 else if even n then n else n + 1)"

definition double_exponent :: "real \<Rightarrow> int" where
  "double_exponent x = max \<lfloor>log 2 \<bar>x\<bar>\<rfloor> (- 1022)"

definition double_ulp :: "real \<Rightarrow> real" where
  "double_ulp x = pow2 (double_exponent x - 52)"

definition double_round :: "real \<Rightarrow> real" where
  "double_round x =
     (if x = 0 then 0 else double_ulp x * of_int (round_half_even (x / double_ulp x)))"

definition double_overflows :: "real \<Rightarrow> bool" where
  "double_overflows x = (2 ^ 1024 - 2 ^ 970 \<le> \<bar>x\<bar>)"

section \<open>The network: class MLP\<close>

datatype ActivationType = SIGMOID | TANH | RELU

record MLP =
  layer_sizes :: "int list"
  activation_type :: ActivationType
  total_params :: int
  weights :: "real list list list"
  biases :: "real list list"
  layer_outputs :: "real list list"

subsection \<open>Construction\<close>

text \<open>The loop of the constructor that adds up weights and biases of every transition.\<close>

fun count_params :: "int list \<Rightarrow> int" where
  "count_params (a # b # ls) = a * b + b + count_params (b # ls)"
| "count_params ls = 0"

text \<open>
  \<open>weights[i]\<close> gets \<open>layers[i]\<close> rows of \<open>layers[i + 1]\<close> zeros, \<open>biases[i]\<close> gets
  \<open>layers[i + 1]\<close> zeros.
\<close>

fun zero_weights :: "int list \<Rightarrow> real list list list" where
  "zero_weights (a # b # ls) = replicate (nat a) (replicate (nat b) 0) # zero_weights (b # ls)"
| "zero_weights ls = []"

fun zero_biases :: "int list \<Rightarrow> real list list" where
  "zero_biases (a # b # ls) = replicate (nat b) 0 # zero_biases (b # ls)"
| "zero_biases ls = []"

text \<open>
  The constructor throws on fewer than two layers. A negative width reaches
  \<open>std::vector::resize\<close> as a huge unsigned size, which throws \<open>std::length_error\<close>.
\<close>

definition MLP_new :: "int list \<Rightarrow> ActivationType \<Rightarrow> failure + MLP" where
  "MLP_new layers act_type =
     (if length layers < 2 then Inl InvalidTopology
      else if list_ex (\<lambda>n. n < 0) layers then Inl length_error
      else Inr \<lparr>layer_sizes = layers,
                activation_type = act_type,
                total_params = count_params layers,
                weights = zero_weights layers,
                biases = zero_biases layers,
                layer_outputs = map (\<lambda>n. replicate (nat n) 0) layers\<rparr>)"

subsection \<open>Activation functions\<close>

text \<open>
  \<open>1.0 / (1.0 + std::exp(-x))\<close>: the exponential, the sum and the quotient are each
  rounded to a double. \<open>std::exp\<close> and \<open>std::tanh\<close> are taken to return the double
  nearest to the exact value. When the exponential overflows it is infinity, and so is
  the sum, and the quotient is 0.
\<close>

definition sigmoid :: "real \<Rightarrow> real" where
  "sigmoid x =
     (if double_overflows (exp (- x)) then 0
      else double_round (1 / double_round (1 + double_round (exp (- x)))))"

definition tanh_activation :: "real \<Rightarrow> real" where
  "tanh_activation x = double_round (tanh x)"

definition relu :: "real \<Rightarrow> real" where
  "relu x = max 0 x"

fun activate :: "ActivationType \<Rightarrow> real \<Rightarrow> real" where
  "activate SIGMOID x = sigmoid x"
| "activate TANH x = tanh_activation x"
| "activate RELU x = relu x"

subsection \<open>The chromosome codec\<close>

text \<open>
  \<open>encodeChromosome\<close> pushes, for every layer, the weight rows in order and then the
  biases.
\<close>

fun encode_layers :: "real list list list \<Rightarrow> real list list \<Rightarrow> real list" where
  "encode_layers (w # ws) (b # bs) = concat w @ b @ encode_layers ws bs"
| "encode_layers ws bs = []"

definition encodeChromosome :: "MLP \<Rightarrow> real list" where
  "encodeChromosome m = encode_layers (weights m) (biases m)"

text \<open>
  \<open>decodeChromosome\<close> walks the existing tensors and overwrites every cell with
  \<open>chromosome[idx++]\<close>. The three functions are the loops over \<open>k\<close>, \<open>j\<close> and \<open>i\<close>;
  each returns the new cells and the index reached.
\<close>

fun decode_vector :: "real list \<Rightarrow> real list \<Rightarrow> nat \<Rightarrow> real list \<times> nat" where
  "decode_vector chromosome [] idx = ([], idx)"
| "decode_vector chromosome (x # xs) idx =
     (let (ys, idx') = decode_vector chromosome xs (idx + 1)
      in (chromosome ! idx # ys, idx'))"

fun decode_matrix :: "real list \<Rightarrow> real list list \<Rightarrow> nat \<Rightarrow> real list list \<times> nat" where
  "decode_matrix chromosome [] idx = ([], idx)"
| "decode_matrix chromosome (row # rows) idx =
     (let (row', idx') = decode_vector chromosome row idx;
          (rows', idx'') = decode_matrix chromosome rows idx'
      in (row' # rows', idx''))"

fun decode_layers ::
  "real list \<Rightarrow> real list list list \<Rightarrow> real list list \<Rightarrow> nat
     \<Rightarrow> real list list list \<times> real list list" where
  "decode_layers chromosome (w # ws) (b # bs) idx =
     (let (w', idx1) = decode_matrix chromosome w idx;
          (b', idx2) = decode_vector chromosome b idx1;
          (ws', bs') = decode_layers chromosome ws bs idx2
      in (w' # ws', b' # bs'))"
| "decode_layers chromosome [] bs idx = ([], bs)"
| "decode_layers chromosome ws [] idx = (ws, [])"

text \<open>
  The result is the exception thrown, if any, and the network as the call leaves it.
\<close>

definition decodeChromosome :: "real list \<Rightarrow> MLP \<Rightarrow> failure option \<times> MLP" where
  "decodeChromosome chromosome m =
     (if int (length chromosome) \<noteq> total_params m then (Some GenomeSizeMismatch, m)
      else (let (ws, bs) = decode_layers chromosome (weights m) (biases m) 0
            in (None, m\<lparr>weights := ws, biases := bs\<rparr>)))"

definition setWeights :: "real list \<Rightarrow> MLP \<Rightarrow> failure option \<times> MLP" where
  "setWeights chromosome m = decodeChromosome chromosome m"

subsection \<open>Forward propagation\<close>

text \<open>
  The innermost loop of \<open>forward\<close>: \<open>sum\<close> starts at \<open>biases[layer][j]\<close> and
  adds \<open>layer_outputs[layer][i] * weights[layer][i][j]\<close> for every \<open>i\<close>.
\<close>

definition weighted_sum :: "MLP \<Rightarrow> nat \<Rightarrow> nat \<Rightarrow> real" where
  "weighted_sum m layer j =
     fold (\<lambda>i sum. sum + layer_outputs m ! layer ! i * weights m ! layer ! i ! j)
       [0..<length (layer_outputs m ! layer)] (biases m ! layer ! j)"

text \<open>
  The body of the loop over \<open>j\<close>: the last transition stores \<open>sigmoid(sum)\<close>, every
  other one \<open>activate(sum)\<close>.
\<close>

definition forward_neuron :: "nat \<Rightarrow> nat \<Rightarrow> MLP \<Rightarrow> MLP" where
  "forward_neuron layer j m =
     (let sum = weighted_sum m layer j;
          v = (if layer = length (weights m) - 1 then sigmoid sum
               else activate (activation_type m) sum)
      in m\<lparr>layer_outputs :=
             (layer_outputs m)[layer + 1 := (layer_outputs m ! (layer + 1))[j := v]]\<rparr>)"

definition forward_layer :: "nat \<Rightarrow> MLP \<Rightarrow> MLP" where
  "forward_layer layer m =
     fold (forward_neuron layer) [0..<length (layer_outputs m ! (layer + 1))] m"

definition forward :: "real list \<Rightarrow> MLP \<Rightarrow> (failure + real list) \<times> MLP" where
  "forward input m =
     (if int (length input) \<noteq> layer_sizes m ! 0 then (Inl InputSizeMismatch, m)
      else (let m1 = m\<lparr>layer_outputs := (layer_outputs m)[0 := input]\<rparr>;
                m2 = fold forward_layer [0..<length (weights m1)] m1
            in (Inr (last (layer_outputs m2)), m2)))"

subsection \<open>Prediction\<close>

text \<open>
  The part of \<open>predict\<close> after the forward pass: the threshold for a single output,
  otherwise the scan \<open>for (i = 1; i < output.size(); i++)\<close> that moves \<open>max_idx\<close> on a
  strictly larger value.
\<close>

definition predict_class :: "real list \<Rightarrow> int" where
  "predict_class output =
     (if length output = 1 then (if output ! 0 \<ge> 0.5 then 1 else 0)
      else int (fold (\<lambda>i max_idx. if output ! i > output ! max_idx then i else max_idx)
                  [1..<length output] 0))"

definition predict :: "real list \<Rightarrow> MLP \<Rightarrow> (failure + int) \<times> MLP" where
  "predict input m =
     (case forward input m of
        (Inl e, m') \<Rightarrow> (Inl e, m')
      | (Inr output, m') \<Rightarrow> (Inr (predict_class output), m'))"

subsection \<open>The class invariant\<close>

text \<open>
  The fields of \<open>MLP\<close> are private, so every network a caller can hold was built by the
  constructor and changed only by \<open>setWeights\<close> and \<open>forward\<close>. Such a network keeps the
  tensor shapes the constructor gave it: \<open>weights[i]\<close> is \<open>layers[i]\<close> by
  \<open>layers[i + 1]\<close>, \<open>biases[i]\<close> and \<open>layer_outputs[i + 1]\<close> have \<open>layers[i + 1]\<close>
  cells. On such a network every index that \<open>decodeChromosome\<close> and \<open>forward\<close>
  read or write is in range, which is why their models index the lists directly.
\<close>

fun shape_ok :: "int list \<Rightarrow> real list list list \<Rightarrow> real list list \<Rightarrow> bool" where
  "shape_ok (a # b # ls) (w # ws) (bv # bs) =
     (length w = nat a \<and> list_all (\<lambda>row. length row = nat b) w \<and> length bv = nat b
      \<and> shape_ok (b # ls) ws bs)"
| "shape_ok [a] [] [] = True"
| "shape_ok ls ws bs = False"

definition mlp_inv :: "MLP \<Rightarrow> bool" where
  "mlp_inv m =
     (2 \<le> length (layer_sizes m) \<and> list_all (\<lambda>n. 0 \<le> n) (layer_sizes m)
      \<and> total_params m = count_params (layer_sizes m)
      \<and> shape_ok (layer_sizes m) (weights m) (biases m)
      \<and> map length (layer_outputs m) = map nat (layer_sizes m))"

subsection \<open>Auxiliary notions for the forward pass\<close>


text \<open>The activation \<open>forward\<close> applies on the transition out of layer \<open>l\<close>.\<close>

definition layer_activation :: "MLP \<Rightarrow> nat \<Rightarrow> real \<Rightarrow> real" where
  "layer_activation m l =
     (if l = length (weights m) - 1 then sigmoid else activate (activation_type m))"

text \<open>
  The loop invariant of \<open>forward\<close> after \<open>k\<close> transitions, started on network \<open>m\<close>:
  parameters and shapes are those of \<open>m\<close>, layer 0 holds the input, and every cell of
  the layers \<open>1..k\<close> is the activation of its weighted sum.
\<close>

definition forward_rel :: "MLP \<Rightarrow> real list \<Rightarrow> nat \<Rightarrow> MLP \<Rightarrow> bool" where
  "forward_rel m input k s =
     (weights s = weights m \<and> biases s = biases m \<and> activation_type s = activation_type m
      \<and> layer_sizes s = layer_sizes m \<and> total_params s = total_params m
      \<and> map length (layer_outputs s) = map nat (layer_sizes m)
      \<and> layer_outputs s ! 0 = input
      \<and> (\<forall>l<k. \<forall>j<length (layer_outputs s ! (Suc l)).
            layer_outputs s ! (Suc l) ! j = layer_activation m l (weighted_sum s l j)))"

subsection \<open>Example networks\<close>

text \<open>
  The network the constructor builds for the topology \<open>[2, 2, 1]\<close>; two
  rectified-linear networks with one hidden unit; a network with a hyperbolic-tangent
  hidden unit; a single sigmoid unit of weight 5; and a three-class network whose
  biases make the outputs 0.5, 1 and 1.
\<close>

definition net_2_2_1 :: MLP where
  "net_2_2_1 =
     \<lparr>layer_sizes = [2, 2, 1], activation_type = SIGMOID, total_params = 9,
      weights = [[[0, 0], [0, 0]], [[0], [0]]], biases = [[0, 0], [0]],
      layer_outputs = [[0, 0], [0, 0], [0]]\<rparr>"

definition net_relu :: MLP where
  "net_relu =
     \<lparr>layer_sizes = [1, 1, 1], activation_type = RELU, total_params = 4,
      weights = [[[1]], [[1]]], biases = [[0], [0]],
      layer_outputs = [[0], [0], [0]]\<rparr>"

definition net_relu_steep :: MLP where
  "net_relu_steep =
     \<lparr>layer_sizes = [1, 1, 1], activation_type = RELU, total_params = 4,
      weights = [[[2]], [[10]]], biases = [[1], [- 20]],
      layer_outputs = [[0], [0], [0]]\<rparr>"



definition net_3class :: MLP where
  "net_3class =
     \<lparr>layer_sizes = [1, 3], activation_type = SIGMOID, total_params = 6,
      weights = [[[0, 0, 0]]], biases = [[0, 50, 50]],
      layer_outputs = [[0], [0, 0, 0]]\<rparr>"


section \<open>Random numbers: namespace Utils\<close>

text \<open>
  \<open>Utils::rng\<close> is a process-wide \<open>std::mt19937\<close>. The engine and the two
  distributions belong to the C++ standard library, not to this program. The engine in
  its current state is modelled by the stream of 32-bit words it is going to produce;
  a draw takes the head of the stream and leaves the tail. Seeding the engine is the
  parameter \<open>engine\<close> of \<open>initRandom\<close>.
\<close>

type_synonym rng = "32 word stream"

text \<open>
  \<open>initRandom(seed)\<close>: seed 0 asks \<open>std::random_device\<close> for a seed. The value the
  device returns is the argument \<open>rd\<close>.
\<close>

definition initRandom :: "(32 word \<Rightarrow> rng) \<Rightarrow> 32 word \<Rightarrow> 32 word \<Rightarrow> rng" where
  "initRandom engine seed rd = (if seed = 0 then engine rd else engine seed)"

text \<open>
  \<open>std::uniform_real_distribution<double>(min, max)\<close> returns a value of
  \<open>[min, max)\<close>, \<open>std::uniform_int_distribution<int>(min, max)\<close> a value of
  \<open>[min, max]\<close>, each computed from the engine's output. The model spends one word
  on every draw.
\<close>

definition unit_draw :: "32 word \<Rightarrow> real" where
  "unit_draw w = real (unat w) / 2 ^ 32"

definition randomDouble :: "real \<Rightarrow> real \<Rightarrow> rng \<Rightarrow> real \<times> rng" where
  "randomDouble min_v max_v g = (min_v + unit_draw (shd g) * (max_v - min_v), stl g)"

definition randomInt :: "int \<Rightarrow> int \<Rightarrow> rng \<Rightarrow> int \<times> rng" where
  "randomInt min_v max_v g = (min_v + int (unat (shd g)) mod (max_v - min_v + 1), stl g)"

text \<open>The loop of \<open>randomVector\<close>, for the cells still to fill.\<close>

fun random_cells :: "nat \<Rightarrow> real \<Rightarrow> real \<Rightarrow> rng \<Rightarrow> real list \<times> rng" where
  "random_cells 0 min_v max_v g = ([], g)"
| "random_cells (Suc n) min_v max_v g =
     (let (x, g') = randomDouble min_v max_v g;
          (xs, g'') = random_cells n min_v max_v g'
      in (x # xs, g''))"

text \<open>A negative size makes the vector's constructor throw \<open>std::length_error\<close>.\<close>

definition randomVector :: "int \<Rightarrow> real \<Rightarrow> real \<Rightarrow> rng \<Rightarrow> failure + real list \<times> rng" where
  "randomVector n min_v max_v g =
     (if n < 0 then Inl length_error else Inr (random_cells (nat n) min_v max_v g))"

definition clamp :: "real \<Rightarrow> real \<Rightarrow> real \<Rightarrow> real" where
  "clamp v min_v max_v = max min_v (min max_v v)"

section \<open>The optimizer: class GeneticAlgorithm\<close>

record Individual =
  chromosome :: "real list"
  fitness :: real

text \<open>The two constructors of \<open>Individual\<close>.\<close>

definition Individual_new :: Individual where
  "Individual_new = \<lparr>chromosome = [], fitness = 0\<rparr>"

definition Individual_sized :: "int \<Rightarrow> failure + Individual" where
  "Individual_sized n =
     (if n < 0 then Inl length_error
      else Inr \<lparr>chromosome = replicate (nat n) 0, fitness = 0\<rparr>)"

record GAConfig =
  population_size :: int
  max_generations :: int
  crossover_rate :: real
  mutation_rate :: real
  mutation_strength :: real
  elitism_rate :: real
  tournament_size :: int
  verbose :: bool

definition GAConfig_new :: GAConfig where
  "GAConfig_new =
     \<lparr>population_size = 50, max_generations = 100, crossover_rate = 0.8,
      mutation_rate = 0.1, mutation_strength = 0.3, elitism_rate = 0.1,
      tournament_size = 3, verbose = True\<rparr>"

text \<open>An empty \<open>std::function\<close> is \<open>None\<close>.\<close>

record GeneticAlgorithm =
  config :: GAConfig
  population :: "Individual list"
  chromosome_length :: int
  best_fitness :: real
  best_individual :: Individual
  fitness_function :: "(real list \<Rightarrow> real) option"
  fitness_history :: "real list"
  best_fitness_history :: "real list"
  avg_fitness_history :: "real list"

text \<open>
  The constructor resizes the population to \<open>population_size\<close> and every chromosome to
  \<open>chrom_length\<close>; a negative size makes \<open>resize\<close> throw.
\<close>

definition GeneticAlgorithm_new :: "int \<Rightarrow> GAConfig \<Rightarrow> failure + GeneticAlgorithm" where
  "GeneticAlgorithm_new chrom_length cfg =
     (if population_size cfg < 0 then Inl length_error
      else if 0 < population_size cfg \<and> chrom_length < 0 then Inl length_error
      else Inr \<lparr>config = cfg,
                population = replicate (nat (population_size cfg))
                  (Individual_new\<lparr>chromosome := replicate (nat chrom_length) 0\<rparr>),
                chromosome_length = chrom_length,
                best_fitness = 0,
                best_individual = Individual_new,
                fitness_function = None,
                fitness_history = [],
                best_fitness_history = [],
                avg_fitness_history = []\<rparr>)"

definition setFitnessFunction ::
  "(real list \<Rightarrow> real) option \<Rightarrow> GeneticAlgorithm \<Rightarrow> GeneticAlgorithm" where
  "setFitnessFunction func s = s\<lparr>fitness_function := func\<rparr>"

subsection \<open>Initialisation and evaluation\<close>

fun initialize_individuals ::
  "int \<Rightarrow> real \<Rightarrow> real \<Rightarrow> Individual list \<Rightarrow> rng \<Rightarrow> failure + Individual list \<times> rng" where
  "initialize_individuals n min_val max_val [] g = Inr ([], g)"
| "initialize_individuals n min_val max_val (individual # rest) g =
     (case randomVector n min_val max_val g of
        Inl e \<Rightarrow> Inl e
      | Inr (v, g') \<Rightarrow>
          (case initialize_individuals n min_val max_val rest g' of
             Inl e \<Rightarrow> Inl e
           | Inr (rest', g'') \<Rightarrow> Inr (individual\<lparr>chromosome := v, fitness := 0\<rparr> # rest', g'')))"

definition initializePopulation ::
  "real \<Rightarrow> real \<Rightarrow> GeneticAlgorithm \<Rightarrow> rng \<Rightarrow> failure + GeneticAlgorithm \<times> rng" where
  "initializePopulation min_val max_val s g =
     (case initialize_individuals (chromosome_length s) min_val max_val (population s) g of
        Inl e \<Rightarrow> Inl e
      | Inr (p, g') \<Rightarrow> Inr (s\<lparr>population := p\<rparr>, g'))"

text \<open>
  The loop \<open>individual.fitness = fitness_function(individual.chromosome)\<close>; calling an
  empty \<open>std::function\<close> throws \<open>std::bad_function_call\<close>.
\<close>

fun evaluate_all :: "(real list \<Rightarrow> real) option \<Rightarrow> Individual list \<Rightarrow> failure + Individual list" where
  "evaluate_all func [] = Inr []"
| "evaluate_all None (individual # rest) = Inl bad_function_call"
| "evaluate_all (Some f) individuals =
     Inr (map (\<lambda>individual. individual\<lparr>fitness := f (chromosome individual)\<rparr>) individuals)"

text \<open>
  \<open>std::max_element\<close> with the comparison \<open>a.fitness < b.fitness\<close>: the first of the
  largest elements, found by replacing the candidate when it compares less.
\<close>

fun max_element_from :: "Individual \<Rightarrow> Individual list \<Rightarrow> Individual" where
  "max_element_from largest [] = largest"
| "max_element_from largest (x # xs) =
     max_element_from (if fitness largest < fitness x then x else largest) xs"

text \<open>On an empty population \<open>best_it\<close> is the end iterator and is dereferenced.\<close>

definition evaluateFitness :: "GeneticAlgorithm \<Rightarrow> failure + GeneticAlgorithm" where
  "evaluateFitness s =
     (case evaluate_all (fitness_function s) (population s) of
        Inl e \<Rightarrow> Inl e
      | Inr [] \<Rightarrow> Inl undefined_behaviour
      | Inr (x # xs) \<Rightarrow>
          (let best_it = max_element_from x xs;
               s1 = s\<lparr>population := x # xs\<rparr>
           in if fitness best_it > best_fitness s
              then Inr (s1\<lparr>best_fitness := fitness best_it, best_individual := best_it\<rparr>)
              else Inr s1))"

subsection \<open>Selection, crossover and mutation\<close>

text \<open>
  The loop of \<open>tournamentSelection\<close>, for the draws still to make. With an empty
  population the bounds of the distribution are 0 and -1 and the read is out of range.
\<close>

fun tournament_loop ::
  "nat \<Rightarrow> Individual list \<Rightarrow> Individual \<Rightarrow> rng \<Rightarrow> failure + Individual \<times> rng" where
  "tournament_loop 0 pop best g = Inr (best, g)"
| "tournament_loop (Suc n) pop best g =
     (if pop = [] then Inl undefined_behaviour
      else (let (idx, g') = randomInt 0 (int (length pop) - 1) g
            in tournament_loop n pop
                 (if fitness (pop ! nat idx) > fitness best then pop ! nat idx else best) g'))"

definition tournamentSelection :: "GeneticAlgorithm \<Rightarrow> rng \<Rightarrow> failure + Individual \<times> rng" where
  "tournamentSelection s g =
     tournament_loop (nat (tournament_size (config s))) (population s)
       (Individual_new\<lparr>fitness := - 1\<rparr>) g"

text \<open>
  The loop of uniform crossover over the gene indices still to visit. A swap at an
  index beyond a chromosome is an access out of range.
\<close>

fun crossover_genes ::
  "nat list \<Rightarrow> Individual \<Rightarrow> Individual \<Rightarrow> Individual \<Rightarrow> Individual \<Rightarrow> rng
     \<Rightarrow> failure + (Individual \<times> Individual) \<times> rng" where
  "crossover_genes [] parent1 parent2 child1 child2 g = Inr ((child1, child2), g)"
| "crossover_genes (i # rest) parent1 parent2 child1 child2 g =
     (let (coin, g') = randomDouble 0 1 g
      in if coin < 0.5
         then (if i < length (chromosome child1) \<and> i < length (chromosome parent2)
                  \<and> i < length (chromosome child2) \<and> i < length (chromosome parent1)
               then crossover_genes rest parent1 parent2
                      (child1\<lparr>chromosome := (chromosome child1)[i := chromosome parent2 ! i]\<rparr>)
                      (child2\<lparr>chromosome := (chromosome child2)[i := chromosome parent1 ! i]\<rparr>)
                      g'
               else Inl undefined_behaviour)
         else crossover_genes rest parent1 parent2 child1 child2 g')"

definition crossover ::
  "Individual \<Rightarrow> Individual \<Rightarrow> GeneticAlgorithm \<Rightarrow> rng
     \<Rightarrow> failure + (Individual \<times> Individual) \<times> rng" where
  "crossover parent1 parent2 s g =
     (let (r, g') = randomDouble 0 1 g
      in if r < crossover_rate (config s)
         then crossover_genes [0..<nat (chromosome_length s)] parent1 parent2 parent1 parent2 g'
         else Inr ((parent1, parent2), g'))"

text \<open>The loop of \<open>mutate\<close> over the gene indices still to visit.\<close>

fun mutate_genes ::
  "nat list \<Rightarrow> GAConfig \<Rightarrow> Individual \<Rightarrow> rng \<Rightarrow> failure + Individual \<times> rng" where
  "mutate_genes [] cfg individual g = Inr (individual, g)"
| "mutate_genes (i # rest) cfg individual g =
     (let (r, g1) = randomDouble 0 1 g
      in if r < mutation_rate cfg
         then (let (noise, g2) = randomDouble (- mutation_strength cfg) (mutation_strength cfg) g1
               in if i < length (chromosome individual)
                  then mutate_genes rest cfg
                         (individual\<lparr>chromosome := (chromosome individual)
                            [i := clamp (chromosome individual ! i + noise) (- 5) 5]\<rparr>) g2
                  else Inl undefined_behaviour)
         else mutate_genes rest cfg individual g1)"

definition mutate :: "Individual \<Rightarrow> GeneticAlgorithm \<Rightarrow> rng \<Rightarrow> failure + Individual \<times> rng" where
  "mutate individual s g = mutate_genes [0..<nat (chromosome_length s)] (config s) individual g"

subsection \<open>Replacement\<close>

text \<open>
  \<open>std::sort\<close> with the comparison \<open>a.fitness > b.fitness\<close>. The standard leaves the
  order of individuals of equal fitness open; the model keeps their order. What is
  proved of replacement in general is stated so that it holds for every such order.
\<close>

definition sort_descending :: "Individual list \<Rightarrow> Individual list" where
  "sort_descending individuals = sort_key (\<lambda>individual. - fitness individual) individuals"

text \<open>
  \<open>static_cast<int>\<close> of a \<open>double\<close> drops the fraction. The double it is applied to
  is the rounded product \<open>population_size * elitism_rate\<close>.
\<close>

definition truncate_to_int :: "real \<Rightarrow> int" where
  "truncate_to_int x = (if 0 \<le> x then \<lfloor>x\<rfloor> else \<lceil>x\<rceil>)"

definition replacePopulation :: "Individual list \<Rightarrow> GeneticAlgorithm \<Rightarrow> GeneticAlgorithm" where
  "replacePopulation offspring s =
     (let sorted_population = sort_descending (population s);
          sorted_offspring = sort_descending offspring;
          elites = truncate_to_int
            (double_round (real_of_int (population_size (config s)) * elitism_rate (config s)));
          kept = take (nat elites) sorted_population;
          new_population =
            kept @ take (nat (population_size (config s)) - length kept) sorted_offspring
      in s\<lparr>population := new_population\<rparr>)"

subsection \<open>The generational loop\<close>

text \<open>One pass of the \<open>while\<close> loop of \<open>evolve\<close>: two parents, crossover, two mutations.\<close>

definition breed :: "GeneticAlgorithm \<Rightarrow> rng \<Rightarrow> failure + (Individual \<times> Individual) \<times> rng" where
  "breed s g =
     (case tournamentSelection s g of
        Inl e \<Rightarrow> Inl e
      | Inr (parent1, g1) \<Rightarrow>
     (case tournamentSelection s g1 of
        Inl e \<Rightarrow> Inl e
      | Inr (parent2, g2) \<Rightarrow>
     (case crossover parent1 parent2 s g2 of
        Inl e \<Rightarrow> Inl e
      | Inr ((child1, child2), g3) \<Rightarrow>
     (case mutate child1 s g3 of
        Inl e \<Rightarrow> Inl e
      | Inr (child1', g4) \<Rightarrow>
     (case mutate child2 s g4 of
        Inl e \<Rightarrow> Inl e
      | Inr (child2', g5) \<Rightarrow> Inr ((child1', child2'), g5))))))"

text \<open>
  The \<open>while\<close> loop that fills the offspring buffer: the first child is always pushed,
  the second only while the buffer is still short. The source compares the size with
  \<open>population_size\<close> cast to \<open>size_t\<close>; the constructor has refused a negative
  \<open>population_size\<close>, so this is the comparison of the two integers.
\<close>

function make_offspring ::
  "GeneticAlgorithm \<Rightarrow> Individual list \<Rightarrow> rng \<Rightarrow> failure + Individual list \<times> rng" where
  "make_offspring s offspring g =
     (if int (length offspring) < population_size (config s)
      then (case breed s g of
              Inl e \<Rightarrow> Inl e
            | Inr ((child1, child2), g') \<Rightarrow>
                make_offspring s
                  (if int (length (offspring @ [child1])) < population_size (config s)
                   then offspring @ [child1] @ [child2]
                   else offspring @ [child1])
                  g')
      else Inr (offspring, g))"
  by pat_completeness auto
termination
  by (relation "measure (\<lambda>(s, offspring, g). nat (population_size (config s)) - length offspring)")
     auto

declare make_offspring.simps [simp del]

text \<open>
  The body of the \<open>for\<close> loop of \<open>evolve\<close>: offspring, their evaluation, replacement,
  and one entry appended to each history.
\<close>

definition generation :: "GeneticAlgorithm \<Rightarrow> rng \<Rightarrow> failure + GeneticAlgorithm \<times> rng" where
  "generation s g =
     (case make_offspring s [] g of
        Inl e \<Rightarrow> Inl e
      | Inr (offspring, g') \<Rightarrow>
     (case evaluate_all (fitness_function s) offspring of
        Inl e \<Rightarrow> Inl e
      | Inr evaluated \<Rightarrow>
          (let s1 = replacePopulation evaluated s;
               total_fitness = fold (\<lambda>ind total. total + fitness ind) (population s1) 0;
               avg_fitness = total_fitness / real (length (population s1))
           in Inr (s1\<lparr>best_fitness_history := best_fitness_history s1 @ [best_fitness s1],
                       avg_fitness_history := avg_fitness_history s1 @ [avg_fitness]\<rparr>, g'))))"

fun evolve_loop :: "nat \<Rightarrow> GeneticAlgorithm \<Rightarrow> rng \<Rightarrow> failure + GeneticAlgorithm \<times> rng" where
  "evolve_loop 0 s g = Inr (s, g)"
| "evolve_loop (Suc n) s g =
     (case generation s g of
        Inl e \<Rightarrow> Inl e
      | Inr (s', g') \<Rightarrow> evolve_loop n s' g')"

text \<open>
  \<open>evolve\<close> cut off after \<open>k\<close> passes of its \<open>for\<close> loop: the check of the fitness
  function, the initial population drawn from \<open>[-1, 1]\<close>, its evaluation, and \<open>k\<close>
  generations. \<open>evolve\<close> itself makes \<open>max_generations\<close> passes. Progress output is
  left out.
\<close>

definition evolve_upto :: "nat \<Rightarrow> GeneticAlgorithm \<Rightarrow> rng \<Rightarrow> failure + GeneticAlgorithm \<times> rng" where
  "evolve_upto k s g =
     (case fitness_function s of
        None \<Rightarrow> Inl ConfigurationError
      | Some f \<Rightarrow>
     (case initializePopulation (- 1) 1 s g of
        Inl e \<Rightarrow> Inl e
      | Inr (s1, g1) \<Rightarrow>
     (case evaluateFitness s1 of
        Inl e \<Rightarrow> Inl e
      | Inr s2 \<Rightarrow> evolve_loop k s2 g1)))"

definition evolve :: "GeneticAlgorithm \<Rightarrow> rng \<Rightarrow> failure + GeneticAlgorithm \<times> rng" where
  "evolve s g = evolve_upto (nat (max_generations (config s))) s g"

subsection \<open>Invariants of the generational loop\<close>

text \<open>
  Every gene lies in \<open>[-5, 5]\<close>; an individual carries the fitness of its own
  chromosome; \<open>ga_inv\<close> is what holds of the optimizer whenever the loop of \<open>evolve\<close>
  is at the start of a pass; \<open>ga_ready\<close> is what a pass needs to run without reading
  a chromosome out of range.
\<close>

definition genes_in_range :: "Individual \<Rightarrow> bool" where
  "genes_in_range individual = list_all (\<lambda>x. - 5 \<le> x \<and> x \<le> 5) (chromosome individual)"

definition evaluated_by :: "(real list \<Rightarrow> real) \<Rightarrow> Individual \<Rightarrow> bool" where
  "evaluated_by f individual = (fitness individual = f (chromosome individual))"

definition ga_inv :: "GAConfig \<Rightarrow> int \<Rightarrow> (real list \<Rightarrow> real) \<Rightarrow> GeneticAlgorithm \<Rightarrow> bool" where
  "ga_inv cfg len f s =
     (config s = cfg \<and> chromosome_length s = len \<and> fitness_function s = Some f
      \<and> 0 \<le> population_size cfg
      \<and> length (population s) = nat (population_size cfg)
      \<and> list_all genes_in_range (population s)
      \<and> list_all (evaluated_by f) (population s))"

definition ga_ready :: "GeneticAlgorithm \<Rightarrow> bool" where
  "ga_ready s =
     (population s \<noteq> [] \<and> 1 \<le> tournament_size (config s)
      \<and> list_all (\<lambda>individual. length (chromosome individual) = nat (chromosome_length s)
                      \<and> - 1 < fitness individual) (population s))"

subsection \<open>A small run\<close>

text \<open>
  One individual with one gene, one generation, no crossover, every gene mutated by
  noise of half-width 1, no elites. The fitness function scores 1 for a first gene of at
  most -2 and 1/2 otherwise. \<open>ga_small\<close> is the optimizer as constructed with that
  fitness function set, \<open>ga_small_evaluated\<close> and \<open>ga_small_final\<close> the states after
  the initial evaluation and after the run, on the random stream of zeros.
\<close>

definition cfg_small :: GAConfig where
  "cfg_small =
     \<lparr>population_size = 1, max_generations = 1, crossover_rate = 0,
      mutation_rate = 1, mutation_strength = 1, elitism_rate = 0,
      tournament_size = 1, verbose = False\<rparr>"

definition fit_low :: "real list \<Rightarrow> real" where
  "fit_low c = (case c of [] \<Rightarrow> 0 | x # rest \<Rightarrow> if x \<le> - 2 then 1 else 1 / 2)"

definition ga_small :: GeneticAlgorithm where
  "ga_small =
     \<lparr>config = cfg_small,
      population = [\<lparr>chromosome = [0], fitness = 0\<rparr>],
      chromosome_length = 1, best_fitness = 0, best_individual = \<lparr>chromosome = [], fitness = 0\<rparr>,
      fitness_function = Some fit_low,
      fitness_history = [], best_fitness_history = [], avg_fitness_history = []\<rparr>"

definition ga_small_evaluated :: GeneticAlgorithm where
  "ga_small_evaluated =
     ga_small\<lparr>population := [\<lparr>chromosome = [- 1], fitness = 1 / 2\<rparr>],
            best_fitness := 1 / 2,
            best_individual := \<lparr>chromosome = [- 1], fitness = 1 / 2\<rparr>\<rparr>"

definition ga_small_final :: GeneticAlgorithm where
  "ga_small_final =
     ga_small_evaluated\<lparr>population := [\<lparr>chromosome = [- 2], fitness = 1\<rparr>],
            best_fitness_history := [1 / 2],
            avg_fitness_history := [1]\<rparr>"

subsection \<open>A run of three individuals\<close>

text \<open>
  Three individuals with one gene, one generation, crossover always, every gene mutated
  by noise of half-width 10, half of the population kept as elites (one individual),
  tournaments of two draws; the same fitness function and random stream as the small
  run.
\<close>

definition cfg_three :: GAConfig where
  "cfg_three =
     \<lparr>population_size = 3, max_generations = 1, crossover_rate = 1,
      mutation_rate = 1, mutation_strength = 10, elitism_rate = 1 / 2,
      tournament_size = 2, verbose = False\<rparr>"

definition ga_three :: GeneticAlgorithm where
  "ga_three =
     \<lparr>config = cfg_three,
      population = [\<lparr>chromosome = [0], fitness = 0\<rparr>, \<lparr>chromosome = [0], fitness = 0\<rparr>,
                    \<lparr>chromosome = [0], fitness = 0\<rparr>],
      chromosome_length = 1, best_fitness = 0, best_individual = \<lparr>chromosome = [], fitness = 0\<rparr>,
      fitness_function = Some fit_low,
      fitness_history = [], best_fitness_history = [], avg_fitness_history = []\<rparr>"

definition ga_three_evaluated :: GeneticAlgorithm where
  "ga_three_evaluated =
     ga_three\<lparr>population := [\<lparr>chromosome = [- 1], fitness = 1 / 2\<rparr>,
                              \<lparr>chromosome = [- 1], fitness = 1 / 2\<rparr>,
                              \<lparr>chromosome = [- 1], fitness = 1 / 2\<rparr>],
            best_fitness := 1 / 2,
            best_individual := \<lparr>chromosome = [- 1], fitness = 1 / 2\<rparr>\<rparr>"

definition ga_three_final :: GeneticAlgorithm where
  "ga_three_final =
     ga_three_evaluated\<lparr>population := [\<lparr>chromosome = [- 1], fitness = 1 / 2\<rparr>,
                                        \<lparr>chromosome = [- 5], fitness = 1\<rparr>,
                                        \<lparr>chromosome = [- 5], fitness = 1\<rparr>],
            best_fitness_history := [1 / 2],
            avg_fitness_history := [5 / 6]\<rparr>"

subsection \<open>A replacement of individuals of distinct fitness\<close>





subsection \<open>Two runs of one optimizer\<close>






subsection \<open>Runs of the small optimizer on other streams\<close>

text \<open>
  An engine whose stream depends on its seed: the seed, then zeros. \<open>ga_small_still\<close>
  is the state of the small optimizer after a run on the stream that starts with 0 and
  continues with \<open>2^31\<close>, whose mutation noise is 0; \<open>ga_small_seeded\<close> is its state
  after a run on the stream of the engine seeded with \<open>2^30\<close>, and
  \<open>ga_small_seeded_again\<close> its state after a second run on that stream.
\<close>

definition engine_seed_then_zeros :: "32 word \<Rightarrow> rng" where
  "engine_seed_then_zeros seed = seed ## sconst 0"

definition ga_small_still :: GeneticAlgorithm where
  "ga_small_still =
     ga_small_evaluated\<lparr>population := [\<lparr>chromosome = [- 1], fitness = 1 / 2\<rparr>],
            best_fitness_history := [1 / 2],
            avg_fitness_history := [1 / 2]\<rparr>"

definition ga_small_seeded :: GeneticAlgorithm where
  "ga_small_seeded =
     ga_small\<lparr>population := [\<lparr>chromosome = [- (3 / 2)], fitness = 1 / 2\<rparr>],
            best_fitness := 1 / 2,
            best_individual := \<lparr>chromosome = [- (1 / 2)], fitness = 1 / 2\<rparr>,
            best_fitness_history := [1 / 2],
            avg_fitness_history := [1 / 2]\<rparr>"

definition ga_small_seeded_again :: GeneticAlgorithm where
  "ga_small_seeded_again =
     ga_small_seeded\<lparr>best_fitness_history := [1 / 2, 1 / 2],
            avg_fitness_history := [1 / 2, 1 / 2]\<rparr>"


section \<open>Properties of rounding\<close>

text \<open>
  The rounded value lies between the multiples of the unit in the last place that
  enclose the argument; hence rounding is exact on representable numbers, keeps the
  sign, and never crosses a power of two.
\<close>

lemma round_half_even_floor: "\<lfloor>r\<rfloor> \<le> round_half_even r \<and> round_half_even r \<le> \<lfloor>r\<rfloor> + 1"
  by (simp add: round_half_even_def Let_def)

lemma round_half_even_of_int: "round_half_even (of_int n) = n"
  by (simp add: round_half_even_def Let_def)

lemma round_half_even_ge: "of_int n \<le> r \<Longrightarrow> n \<le> round_half_even r"
proof -
  assume "of_int n \<le> r"
  then have "n \<le> \<lfloor>r\<rfloor>" by (simp add: le_floor_iff)
  with round_half_even_floor [of r] show ?thesis by linarith
qed

lemma round_half_even_le: "r \<le> of_int n \<Longrightarrow> round_half_even r \<le> n"
proof (cases "r = of_int n")
  case True
  then show ?thesis by (simp add: round_half_even_of_int)
next
  case False
  assume "r \<le> of_int n"
  with False have "r < of_int n" by simp
  then have "\<lfloor>r\<rfloor> < n" by (simp add: floor_less_iff)
  with round_half_even_floor [of r] show ?thesis by linarith
qed

lemma pow2_powr: "pow2 k = 2 powr of_int k"
  by (simp add: pow2_def powr_int)

lemma double_ulp_powr: "double_ulp x = 2 powr of_int (double_exponent x - 52)"
  by (simp add: double_ulp_def pow2_powr)

lemma double_ulp_pos: "0 < double_ulp x"
  by (simp add: double_ulp_powr)

lemma double_round_exact_grid:
  assumes "x / double_ulp x = of_int n"
  shows "double_round x = x"
proof (cases "x = 0")
  case True
  then show ?thesis by (simp add: double_round_def)
next
  case False
  have "double_round x = double_ulp x * of_int (round_half_even (x / double_ulp x))"
    using False by (simp add: double_round_def)
  also have "\<dots> = double_ulp x * (x / double_ulp x)"
    by (simp only: assms round_half_even_of_int)
  also have "\<dots> = x" using double_ulp_pos [of x] by simp
  finally show ?thesis .
qed

lemma double_round_le_grid:
  assumes "x \<le> y" and "y / double_ulp x = of_int n"
  shows "double_round x \<le> y"
proof (cases "x = 0")
  case True
  with assms show ?thesis by (simp add: double_round_def)
next
  case False
  let ?u = "double_ulp x"
  have u: "0 < ?u" by (rule double_ulp_pos)
  from assms(1) u have "x / ?u \<le> y / ?u" by (simp add: divide_right_mono)
  with assms(2) have "round_half_even (x / ?u) \<le> n" by (simp add: round_half_even_le)
  then have "of_int (round_half_even (x / ?u)) \<le> (of_int n :: real)" by simp
  with u have "?u * of_int (round_half_even (x / ?u)) \<le> ?u * of_int n"
    by (simp add: mult_left_mono)
  also have "\<dots> = ?u * (y / ?u)" by (simp only: assms(2))
  also have "\<dots> = y" using u by simp
  finally show ?thesis using False by (simp add: double_round_def)
qed

lemma double_round_ge_grid:
  assumes "y \<le> x" and "y / double_ulp x = of_int n"
  shows "y \<le> double_round x"
proof (cases "x = 0")
  case True
  with assms show ?thesis by (simp add: double_round_def)
next
  case False
  let ?u = "double_ulp x"
  have u: "0 < ?u" by (rule double_ulp_pos)
  from assms(1) u have "y / ?u \<le> x / ?u" by (simp add: divide_right_mono)
  with assms(2) have "n \<le> round_half_even (x / ?u)" by (simp add: round_half_even_ge)
  then have "(of_int n :: real) \<le> of_int (round_half_even (x / ?u))" by simp
  with u have "?u * of_int n \<le> ?u * of_int (round_half_even (x / ?u))"
    by (simp add: mult_left_mono)
  moreover have "?u * of_int n = y"
  proof -
    have "?u * of_int n = ?u * (y / ?u)" by (simp only: assms(2))
    also have "\<dots> = y" using u by simp
    finally show ?thesis .
  qed
  ultimately show ?thesis using False by (simp add: double_round_def)
qed

lemma double_round_nonneg: "0 \<le> x \<Longrightarrow> 0 \<le> double_round x"
  using double_round_ge_grid [of 0 x 0] by simp

lemma two_powr_int: "0 \<le> k \<Longrightarrow> (2::real) powr of_int k = of_int (2 ^ nat k)"
proof -
  assume "0 \<le> k"
  then have "(2::real) powr of_int k = 2 ^ nat k" by (simp add: powr_int)
  then show ?thesis by simp
qed


lemma floor_log2_eq:
  assumes "2 powr of_int k \<le> x" and "x < 2 powr of_int (k + 1)"
  shows "\<lfloor>log 2 x\<rfloor> = k"
proof -
  have pos: "0 < x" using assms(1) powr_gt_zero [of 2 "of_int k"] by linarith
  from assms(1) pos have "of_int k \<le> log 2 x" by (simp add: le_log_iff)
  moreover from assms(2) pos have "log 2 x < of_int (k + 1)" by (simp add: log_less_iff)
  ultimately show ?thesis by linarith
qed

lemma floor_log2_le:
  assumes "0 < x" and "x \<le> 2 powr of_int k"
  shows "\<lfloor>log 2 x\<rfloor> \<le> k"
proof -
  from assms have "log 2 x \<le> of_int k" by (simp add: log_le_iff)
  then show ?thesis by (simp add: floor_le_iff)
qed


lemma double_exponent_eq:
  assumes "pow2 k \<le> \<bar>x\<bar>" and "\<bar>x\<bar> < pow2 (k + 1)" and "- 1022 \<le> k"
  shows "double_exponent x = k"
  using floor_log2_eq [OF assms(1,2) [unfolded pow2_powr]] assms(3)
  by (simp add: double_exponent_def)

lemma pow2_pos: "0 < pow2 k"
  by (simp add: pow2_powr)

lemma double_round_eval:
  assumes "pow2 k \<le> \<bar>x\<bar>" and "\<bar>x\<bar> < pow2 (k + 1)" and "- 1022 \<le> k"
  shows "double_round x = pow2 (k - 52) * of_int (round_half_even (x / pow2 (k - 52)))"
proof -
  from assms(1) have "x \<noteq> 0" using pow2_pos [of k] by auto
  with double_exponent_eq [OF assms] show ?thesis
    by (simp add: double_round_def double_ulp_def)
qed

lemma double_round_exact:
  assumes "pow2 k \<le> \<bar>x\<bar>" and "\<bar>x\<bar> < pow2 (k + 1)" and "- 1022 \<le> k"
    and "x / pow2 (k - 52) = of_int n"
  shows "double_round x = x"
proof -
  from double_exponent_eq [OF assms(1-3)] assms(4)
  have "x / double_ulp x = of_int n" by (simp add: double_ulp_def)
  then show ?thesis by (rule double_round_exact_grid)
qed


lemma double_round_le_pow2:
  assumes "0 < x" and x: "x \<le> pow2 k" and "- 1022 \<le> k"
  shows "double_round x \<le> pow2 k"
  unfolding pow2_powr
proof -
  from assms(1) have ax: "\<bar>x\<bar> = x" by simp
  from x have x2: "x \<le> 2 powr of_int k" by (simp add: pow2_powr)
  from floor_log2_le [OF assms(1) x2] assms(3) ax have e: "double_exponent x \<le> k"
    by (simp add: double_exponent_def)
  have "2 powr of_int k / double_ulp x = (2::real) powr of_int (k - double_exponent x + 52)"
    by (simp add: double_ulp_powr powr_diff powr_add)
  also have "\<dots> = of_int (2 ^ nat (k - double_exponent x + 52))"
    using e by (intro two_powr_int) simp
  finally show "double_round x \<le> 2 powr of_int k" using x2 by (rule double_round_le_grid [rotated])
qed


lemma double_round_near_one:
  assumes "0 \<le> t" and "t \<le> pow2 (- 54)"
  shows "double_round (1 + t) = 1"
proof -
  from assms have t1: "t \<le> 1 / 2 ^ 54" by (simp add: pow2_def)
  then have tlt: "t < 1" by (rule order_le_less_trans) simp
  have p52: "pow2 (- 52) = 1 / 2 ^ 52" by (simp add: pow2_def)
  from assms(1) tlt have "pow2 0 \<le> \<bar>1 + t\<bar>" and "\<bar>1 + t\<bar> < pow2 (0 + 1)"
    by (simp_all add: pow2_def)
  from double_round_eval [OF this]
  have e: "double_round (1 + t) = pow2 (- 52) * of_int (round_half_even ((1 + t) / pow2 (- 52)))"
    by simp
  have a: "(1 + t) / (1 / 2 ^ 52) = of_int (2 ^ 52) + t * 2 ^ 52" by (simp add: algebra_simps)
  from t1 have "t * 2 ^ 52 \<le> 1 / 2 ^ 54 * 2 ^ 52" by (intro mult_right_mono) simp_all
  then have b: "t * 2 ^ 52 \<le> 1 / 4" by simp
  from assms(1) have c: "0 \<le> t * 2 ^ 52" by simp
  from b c have "\<lfloor>of_int (2 ^ 52) + t * 2 ^ 52\<rfloor> = 2 ^ 52"
    by (subst floor_unique [where z = "2 ^ 52"]) simp_all
  with b c have r: "round_half_even (of_int (2 ^ 52) + t * 2 ^ 52) = 2 ^ 52"
    by (simp add: round_half_even_def Let_def)
  show ?thesis unfolding e p52 a r by simp
qed

lemma double_round_1: "double_round 1 = 1"
  using double_round_near_one [of 0] by (simp add: pow2_def)

lemma double_round_2: "double_round 2 = 2"
  by (rule double_round_exact [where k = 1 and n = "2 ^ 52"]) (simp_all add: pow2_def)

lemma double_round_half: "double_round (1 / 2) = 1 / 2"
  by (rule double_round_exact [where k = "- 1" and n = "2 ^ 52"]) (simp_all add: pow2_def)

lemma double_round_three_halves: "double_round (3 / 2) = 3 / 2"
  by (rule double_round_exact [where k = 0 and n = "3 * 2 ^ 51"]) (simp_all add: pow2_def)

lemma double_round_0: "double_round 0 = 0"
  by (simp add: double_round_def)


section \<open>Properties of the chromosome codec\<close>

lemma decode_vector_eq:
  "idx + length xs \<le> length c \<Longrightarrow>
   decode_vector c xs idx = (take (length xs) (drop idx c), idx + length xs)"
proof (induction xs arbitrary: idx)
  case Nil
  then show ?case by simp
next
  case (Cons x xs)
  then have lt: "idx < length c" by simp
  have "take (Suc (length xs)) (drop idx c) = c ! idx # take (length xs) (drop (Suc idx) c)"
    using lt by (simp add: Cons_nth_drop_Suc [symmetric])
  with Cons show ?case by simp
qed

lemma take_add_drop:
  "take (a + b) (drop i c) = take a (drop i c) @ take b (drop (i + a) c)"
  by (simp add: take_add add.commute)

lemma decode_matrix_eq:
  "idx + length (concat rows) \<le> length c \<Longrightarrow>
   decode_matrix c rows idx = (rows', idx') \<Longrightarrow>
   idx' = idx + length (concat rows)
   \<and> concat rows' = take (length (concat rows)) (drop idx c)
   \<and> map length rows' = map length rows"
proof (induction rows arbitrary: idx rows' idx')
  case Nil
  then show ?case by simp
next
  case (Cons row rows)
  from Cons.prems(1) have b1: "idx + length row \<le> length c" by simp
  obtain rs i2 where rec: "decode_matrix c rows (idx + length row) = (rs, i2)"
    by (cases "decode_matrix c rows (idx + length row)")
  from Cons.prems(1) have b2: "(idx + length row) + length (concat rows) \<le> length c" by simp
  note ih = Cons.IH [OF b2 rec]
  from Cons.prems(2) rec have r': "rows' = take (length row) (drop idx c) # rs" and i': "idx' = i2"
    by (simp_all add: decode_vector_eq [OF b1])
  have "take (length row + length (concat rows)) (drop idx c)
        = take (length row) (drop idx c) @ take (length (concat rows)) (drop (idx + length row) c)"
    by (simp add: take_add add.commute)
  with ih r' i' b1 show ?case by (simp add: add.assoc)
qed

lemma decode_layers_eq:
  "length ws = length bs \<Longrightarrow>
   idx + length (encode_layers ws bs) \<le> length c \<Longrightarrow>
   decode_layers c ws bs idx = (ws', bs') \<Longrightarrow>
   encode_layers ws' bs' = take (length (encode_layers ws bs)) (drop idx c)
   \<and> map (map length) ws' = map (map length) ws \<and> map length bs' = map length bs"
proof (induction ws bs arbitrary: idx ws' bs' rule: encode_layers.induct)
  case (1 w ws b bs)
  let ?nw = "length (concat w)"
  let ?nb = "length b"
  let ?nr = "length (encode_layers ws bs)"
  from "1.prems"(2) have bw: "idx + ?nw \<le> length c" by simp
  from "1.prems"(2) have bb: "(idx + ?nw) + ?nb \<le> length c" by simp
  from "1.prems"(2) have br: "(idx + ?nw + ?nb) + ?nr \<le> length c" by simp
  obtain w' i1 where dw: "decode_matrix c w idx = (w', i1)" by (cases "decode_matrix c w idx")
  note mw = decode_matrix_eq [OF bw dw]
  obtain wr br' where dr: "decode_layers c ws bs (idx + ?nw + ?nb) = (wr, br')"
    by (cases "decode_layers c ws bs (idx + ?nw + ?nb)")
  from "1.prems"(1) have len: "length ws = length bs" by simp
  note ih = "1.IH" [OF len br dr]
  from "1.prems"(3) dw mw dr have ws': "ws' = w' # wr"
    and bs': "bs' = take ?nb (drop (idx + ?nw) c) # br'"
    by (simp_all add: decode_vector_eq [OF bb])
  have split: "take (?nw + (?nb + ?nr)) (drop idx c)
      = take ?nw (drop idx c) @ take ?nb (drop (idx + ?nw) c) @ take ?nr (drop (idx + ?nw + ?nb) c)"
    by (simp only: take_add_drop)
  from bb have lb: "length (take ?nb (drop (idx + ?nw) c)) = ?nb" by simp
  show ?case using ih mw ws' bs' split lb by simp
qed simp_all

lemma shape_ok_lengths: "shape_ok ls ws bs \<Longrightarrow> length ws = length bs"
  by (induction ls ws bs rule: shape_ok.induct) simp_all

lemma length_concat_uniform:
  "list_all (\<lambda>row. length row = n) w \<Longrightarrow> length (concat w) = length w * n"
  by (induction w) simp_all

lemma shape_ok_count:
  "shape_ok ls ws bs \<Longrightarrow> list_all (\<lambda>n. 0 \<le> n) ls \<Longrightarrow>
   int (length (encode_layers ws bs)) = count_params ls"
proof (induction ls ws bs rule: shape_ok.induct)
  case (1 a b ls w ws bv bs)
  from "1.prems"(1) have rows: "list_all (\<lambda>row. length row = nat b) w" and lw: "length w = nat a"
    by simp_all
  have c: "length (concat w) = nat a * nat b"
    using length_concat_uniform [OF rows] lw by simp
  have "int (nat a * nat b) = a * b"
    using "1.prems"(2) by simp
  with c have "int (length (concat w)) = a * b" by simp
  then show ?case using 1 by simp
qed simp_all

lemma shape_ok_transfer:
  "shape_ok ls ws bs \<Longrightarrow> map (map length) ws' = map (map length) ws \<Longrightarrow>
   map length bs' = map length bs \<Longrightarrow> shape_ok ls ws' bs'"
proof (induction ls ws bs arbitrary: ws' bs' rule: shape_ok.induct)
  case (1 a b ls w ws bv bs)
  from "1.prems"(2) obtain w' wr where ws': "ws' = w' # wr"
    and w': "map length w' = map length w" and wr: "map (map length) wr = map (map length) ws"
    by (cases ws') auto
  from "1.prems"(3) obtain b' br where bs': "bs' = b' # br"
    and b': "length b' = length bv" and br: "map length br = map length bs"
    by (cases bs') auto
  from w' have lw: "length w' = length w" by (rule map_eq_imp_length_eq)
  from "1.prems"(1) have "\<forall>n \<in> set (map length w). n = nat b"
    by (auto simp: list_all_iff)
  with w' have "\<forall>n \<in> set (map length w'). n = nat b" by simp
  then have rows: "list_all (\<lambda>row. length row = nat b) w'"
    by (auto simp: list_all_iff)
  from "1.prems"(1) have "shape_ok (b # ls) ws bs" by simp
  from "1.IH" [OF this wr br] have "shape_ok (b # ls) wr br" .
  with "1.prems"(1) ws' bs' lw rows b' show ?case by simp
qed auto

lemma shape_ok_zero:
  "ls \<noteq> [] \<Longrightarrow> list_all (\<lambda>n. 0 \<le> n) ls \<Longrightarrow> shape_ok ls (zero_weights ls) (zero_biases ls)"
proof (induction ls rule: zero_weights.induct)
  case (1 a b ls)
  then show ?case by (simp add: list_all_iff)
qed simp_all

lemma MLP_new_inv: "MLP_new layers act_type = Inr m \<Longrightarrow> mlp_inv m"
proof -
  assume a: "MLP_new layers act_type = Inr m"
  then have len: "2 \<le> length layers" and nn: "\<not> list_ex (\<lambda>n. n < 0) layers"
    by (auto simp: MLP_new_def split: if_splits)
  from nn have pos: "list_all (\<lambda>n. 0 \<le> n) layers"
    by (auto simp: list_all_iff list_ex_iff)
  from len have ne: "layers \<noteq> []" by auto
  from a len nn have m: "m = \<lparr>layer_sizes = layers, activation_type = act_type,
      total_params = count_params layers, weights = zero_weights layers,
      biases = zero_biases layers, layer_outputs = map (\<lambda>n. replicate (nat n) 0) layers\<rparr>"
    by (simp add: MLP_new_def)
  show ?thesis
    using len pos shape_ok_zero [OF ne pos] by (simp add: m mlp_inv_def comp_def)
qed

lemma decode_layers_full:
  assumes inv: "mlp_inv m" and len: "int (length g) = count_params (layer_sizes m)"
    and dec: "decode_layers g (weights m) (biases m) 0 = (ws, bs)"
  shows "encode_layers ws bs = g \<and> shape_ok (layer_sizes m) ws bs"
proof -
  from inv have sh: "shape_ok (layer_sizes m) (weights m) (biases m)"
    and pos: "list_all (\<lambda>n. 0 \<le> n) (layer_sizes m)"
    by (simp_all add: mlp_inv_def)
  from shape_ok_count [OF sh pos] len
  have n: "length (encode_layers (weights m) (biases m)) = length g" by simp
  then have bound: "0 + length (encode_layers (weights m) (biases m)) \<le> length g" by simp
  from decode_layers_eq [OF shape_ok_lengths [OF sh] bound dec] n
  show ?thesis using shape_ok_transfer [OF sh] by simp
qed

lemma setWeights_inv:
  "mlp_inv m \<Longrightarrow> setWeights g m = (r, m') \<Longrightarrow> mlp_inv m'"
proof -
  assume inv: "mlp_inv m" and sw: "setWeights g m = (r, m')"
  show "mlp_inv m'"
  proof (cases "int (length g) = total_params m")
    case False
    with sw have "m' = m" by (simp add: setWeights_def decodeChromosome_def)
    with inv show ?thesis by simp
  next
    case True
    obtain ws bs where dec: "decode_layers g (weights m) (biases m) 0 = (ws, bs)"
      by (cases "decode_layers g (weights m) (biases m) 0")
    from True inv have len: "int (length g) = count_params (layer_sizes m)"
      by (simp add: mlp_inv_def)
    from sw True dec have m': "m' = m\<lparr>weights := ws, biases := bs\<rparr>"
      by (simp add: setWeights_def decodeChromosome_def)
    from decode_layers_full [OF inv len dec] inv show ?thesis
      by (simp add: m' mlp_inv_def)
  qed
qed

lemma decode_vector_self:
  "take (length xs) (drop idx c) = xs \<Longrightarrow> decode_vector c xs idx = (xs, idx + length xs)"
proof -
  assume a: "take (length xs) (drop idx c) = xs"
  then have "length (take (length xs) (drop idx c)) = length xs" by simp
  then have "idx + length xs \<le> length c \<or> xs = []" by (cases xs) auto
  then show ?thesis
  proof
    assume "idx + length xs \<le> length c"
    from decode_vector_eq [OF this] a show ?thesis by simp
  next
    assume "xs = []"
    then show ?thesis by simp
  qed
qed

lemma decode_matrix_self:
  "decode_matrix (pre @ concat rows @ post) rows (length pre)
     = (rows, length pre + length (concat rows))"
proof (induction rows arbitrary: pre)
  case Nil
  then show ?case by simp
next
  case (Cons row rows)
  have v: "decode_vector (pre @ concat (row # rows) @ post) row (length pre)
        = (row, length pre + length row)"
    by (rule decode_vector_self) simp
  have "decode_matrix ((pre @ row) @ concat rows @ post) rows (length (pre @ row))
        = (rows, length (pre @ row) + length (concat rows))"
    by (rule Cons.IH)
  then show ?case using v by (simp add: add.assoc)
qed

lemma decode_layers_self:
  "length ws = length bs \<Longrightarrow>
   decode_layers (pre @ encode_layers ws bs) ws bs (length pre) = (ws, bs)"
proof (induction ws bs arbitrary: pre rule: encode_layers.induct)
  case (1 w ws b bs)
  let ?c = "pre @ encode_layers (w # ws) (b # bs)"
  have m: "decode_matrix ?c w (length pre) = (w, length pre + length (concat w))"
    using decode_matrix_self [of pre w "b @ encode_layers ws bs"] by simp
  have v: "decode_vector ?c b (length pre + length (concat w))
        = (b, length pre + length (concat w) + length b)"
    by (rule decode_vector_self) (simp add: drop_append)
  from "1.prems" have "length ws = length bs" by simp
  from "1.IH" [OF this, of "pre @ concat w @ b"]
  have "decode_layers ?c ws bs (length pre + length (concat w) + length b) = (ws, bs)"
    by (simp add: add.assoc)
  with m v show ?case by simp
qed simp_all

text \<open>
  Claim C3. For a network of at least two layers and a genome of length \<open>P\<close>, decoding
  the genome and encoding the network again returns the genome, and decoding the
  network's own encoding leaves every weight and bias as it was.
\<close>

theorem codec_round_trip:
  assumes "mlp_inv m" and "int (length genome) = count_params (layer_sizes m)"
  shows "(\<exists>m'. setWeights genome m = (None, m') \<and> encodeChromosome m' = genome
            \<and> layer_sizes m' = layer_sizes m)
         \<and> setWeights (encodeChromosome m) m = (None, m)"
proof
  obtain ws bs where dec: "decode_layers genome (weights m) (biases m) 0 = (ws, bs)"
    by (cases "decode_layers genome (weights m) (biases m) 0")
  from assms have tp: "int (length genome) = total_params m" by (simp add: mlp_inv_def)
  from decode_layers_full [OF assms dec] tp dec
  show "\<exists>m'. setWeights genome m = (None, m') \<and> encodeChromosome m' = genome
            \<and> layer_sizes m' = layer_sizes m"
    by (simp add: setWeights_def decodeChromosome_def encodeChromosome_def)
next
  from assms(1) have sh: "shape_ok (layer_sizes m) (weights m) (biases m)"
    and pos: "list_all (\<lambda>n. 0 \<le> n) (layer_sizes m)"
    and tp: "total_params m = count_params (layer_sizes m)"
    by (simp_all add: mlp_inv_def)
  have "decode_layers ([] @ encode_layers (weights m) (biases m)) (weights m) (biases m) (length ([]::real list))
        = (weights m, biases m)"
    by (rule decode_layers_self [OF shape_ok_lengths [OF sh]])
  then show "setWeights (encodeChromosome m) m = (None, m)"
    using shape_ok_count [OF sh pos] tp
    by (simp add: setWeights_def decodeChromosome_def encodeChromosome_def)
qed

text \<open>
  Claim C4. A genome whose length is not \<open>P\<close> makes \<open>setWeights\<close> throw the size
  mismatch, and the network is left exactly as it was.
\<close>

theorem decode_wrong_length:
  assumes "mlp_inv m" and "int (length genome) \<noteq> count_params (layer_sizes m)"
  shows "setWeights genome m = (Some GenomeSizeMismatch, m)"
  using assms by (simp add: setWeights_def decodeChromosome_def mlp_inv_def)

lemma MLP_new_2_2_1: "MLP_new [2, 2, 1] SIGMOID = Inr net_2_2_1"
  by (simp add: MLP_new_def net_2_2_1_def numeral_eq_Suc)

lemma mlp_inv_2_2_1: "mlp_inv net_2_2_1"
  by (rule MLP_new_inv [OF MLP_new_2_2_1])

theorem codec_round_trip_witness:
  "mlp_inv net_2_2_1
   \<and> int (length [1, 2, 3, 4, 5, 6, 7, 8, 9 :: real]) = count_params (layer_sizes net_2_2_1)
   \<and> setWeights [1, 2, 3, 4, 5, 6, 7, 8, 9] net_2_2_1
       = (None, net_2_2_1\<lparr>weights := [[[1, 2], [3, 4]], [[7], [8]]], biases := [[5, 6], [9]]\<rparr>)
   \<and> (\<exists>m'. setWeights [1, 2, 3, 4, 5, 6, 7, 8, 9] net_2_2_1 = (None, m')
            \<and> encodeChromosome m' = [1, 2, 3, 4, 5, 6, 7, 8, 9]
            \<and> layer_sizes m' = layer_sizes net_2_2_1)
   \<and> setWeights (encodeChromosome net_2_2_1) net_2_2_1 = (None, net_2_2_1)"
proof -
  have l: "int (length [1, 2, 3, 4, 5, 6, 7, 8, 9 :: real]) = count_params (layer_sizes net_2_2_1)"
    by (simp add: net_2_2_1_def)
  have e: "setWeights [1, 2, 3, 4, 5, 6, 7, 8, 9] net_2_2_1
       = (None, net_2_2_1\<lparr>weights := [[[1, 2], [3, 4]], [[7], [8]]], biases := [[5, 6], [9]]\<rparr>)"
    by (simp add: setWeights_def decodeChromosome_def net_2_2_1_def)
  from codec_round_trip [OF mlp_inv_2_2_1 l] mlp_inv_2_2_1 l e show ?thesis by blast
qed

theorem decode_wrong_length_witness:
  "mlp_inv net_2_2_1
   \<and> int (length [1, 2, 3 :: real]) \<noteq> count_params (layer_sizes net_2_2_1)
   \<and> setWeights [1, 2, 3] net_2_2_1 = (Some GenomeSizeMismatch, net_2_2_1)"
proof -
  have l: "int (length [1, 2, 3 :: real]) \<noteq> count_params (layer_sizes net_2_2_1)"
    by (simp add: net_2_2_1_def)
  from decode_wrong_length [OF mlp_inv_2_2_1 l] mlp_inv_2_2_1 l show ?thesis by blast
qed

section \<open>Properties of the forward pass and of prediction\<close>

subsection \<open>The sigmoid in double precision\<close>


lemma exp_50_lower: "2 ^ 54 \<le> exp (50::real)"
proof -
  have "5 \<le> exp (2::real)" using exp_lower_Taylor_quadratic [of "2::real"] by simp
  then have "5 ^ 25 \<le> exp (2::real) ^ 25" by (rule power_mono) simp
  moreover have "exp (50::real) = exp 2 ^ 25" using exp_of_nat_mult [of 25 "2::real"] by simp
  moreover have "(2::real) ^ 54 \<le> 5 ^ 25" by simp
  ultimately show ?thesis by linarith
qed


text \<open>From a sum of 50 on the sigmoid is exactly 1.\<close>

lemma sigmoid_one:
  assumes "50 \<le> x"
  shows "sigmoid x = 1"
proof -
  from assms have "exp 50 \<le> exp x" by simp
  with exp_50_lower have big: "2 ^ 54 \<le> exp x" by linarith
  have "exp (- x) = 1 / exp x" by (simp add: exp_minus divide_simps)
  also from big have "\<dots> \<le> 1 / 2 ^ 54" by (intro divide_left_mono) simp_all
  finally have small: "exp (- x) \<le> 1 / 2 ^ 54" .
  then have small': "exp (- x) \<le> pow2 (- 54)" by (simp add: pow2_def)
  have "(1::real) / 2 ^ 54 < 2 ^ 1024 - 2 ^ 970" by simp
  with small have no: "\<not> double_overflows (exp (- x))" by (simp add: double_overflows_def)
  have "0 \<le> double_round (exp (- x))" by (rule double_round_nonneg) simp
  moreover have "double_round (exp (- x)) \<le> pow2 (- 54)"
    by (rule double_round_le_pow2 [OF _ small']) simp_all
  ultimately have "double_round (1 + double_round (exp (- x))) = 1"
    by (rule double_round_near_one)
  with no show ?thesis by (simp add: sigmoid_def double_round_1)
qed


lemma sigmoid_at_0: "sigmoid 0 = 1 / 2"
proof -
  have "\<not> double_overflows 1" by (simp add: double_overflows_def)
  then show ?thesis
    by (simp add: sigmoid_def double_round_1 double_round_2 double_round_half)
qed




subsection \<open>The forward pass\<close>












lemma forward_rel_inv: "mlp_inv m \<Longrightarrow> forward_rel m input k s \<Longrightarrow> mlp_inv s"
  by (simp add: mlp_inv_def forward_rel_def)


lemma mlp_inv_relu: "mlp_inv net_relu"
  by (simp add: mlp_inv_def net_relu_def)

lemma mlp_inv_relu_steep: "mlp_inv net_relu_steep"
  by (simp add: mlp_inv_def net_relu_steep_def)



lemma mlp_inv_3class: "mlp_inv net_3class"
  by (simp add: mlp_inv_def net_3class_def)






lemma forward_3class:
  "forward [0] net_3class
     = (Inr [1 / 2, 1, 1], net_3class\<lparr>layer_outputs := [[0], [1 / 2, 1, 1]]\<rparr>)"
  by (simp add: forward_def net_3class_def forward_layer_def forward_neuron_def weighted_sum_def
      sigmoid_at_0 sigmoid_one Let_def upt_rec numeral_eq_Suc)

lemma forward_zero:
  "forward [0, 0] net_2_2_1
     = (Inr [1 / 2], net_2_2_1\<lparr>layer_outputs := [[0, 0], [1 / 2, 1 / 2], [1 / 2]]\<rparr>)"
  by (simp add: forward_def net_2_2_1_def forward_layer_def forward_neuron_def weighted_sum_def
      sigmoid_at_0 Let_def upt_rec numeral_eq_Suc)




text \<open>The scan of \<open>predict\<close> over the first \<open>k\<close> cells, \<open>k \<ge> 1\<close>.\<close>

lemma argmax_scan:
  fixes ys :: "real list"
  defines "step \<equiv> (\<lambda>i max_idx. if ys ! i > ys ! max_idx then i else max_idx)"
  shows "1 \<le> k \<Longrightarrow>
     fold step [1..<k] 0 < k
     \<and> (\<forall>i<k. ys ! i \<le> ys ! fold step [1..<k] 0)
     \<and> (\<forall>i<fold step [1..<k] 0. ys ! i < ys ! fold step [1..<k] 0)"
proof (induction k)
  case 0
  then show ?case by simp
next
  case (Suc k)
  show ?case
  proof (cases "k = 0")
    case True
    then show ?thesis by simp
  next
    case False
    then have k: "1 \<le> k" by simp
    let ?r = "fold step [1..<k] 0"
    from Suc.IH [OF k] have r: "?r < k"
      and ub: "\<forall>i<k. ys ! i \<le> ys ! ?r"
      and first: "\<forall>i<?r. ys ! i < ys ! ?r" by simp_all
    have next_r: "fold step [1..<Suc k] 0 = (if ys ! k > ys ! ?r then k else ?r)"
      using k by (simp add: step_def)
    show ?thesis
    proof (cases "ys ! k > ys ! ?r")
      case True
      with next_r have eq: "fold step [1..<Suc k] 0 = k" by simp
      have "\<forall>i<Suc k. ys ! i \<le> ys ! k"
      proof (intro allI impI)
        fix i assume "i < Suc k"
        then have "i = k \<or> i < k" by auto
        then show "ys ! i \<le> ys ! k"
        proof
          assume "i = k" then show ?thesis by simp
        next
          assume "i < k"
          with ub have "ys ! i \<le> ys ! ?r" by simp
          with True show ?thesis by simp
        qed
      qed
      moreover have "\<forall>i<k. ys ! i < ys ! k"
      proof (intro allI impI)
        fix i assume "i < k"
        with ub have "ys ! i \<le> ys ! ?r" by simp
        with True show "ys ! i < ys ! k" by simp
      qed
      ultimately show ?thesis unfolding eq by simp
    next
      case False
      with next_r have eq: "fold step [1..<Suc k] 0 = ?r" by simp
      have "\<forall>i<Suc k. ys ! i \<le> ys ! ?r"
      proof (intro allI impI)
        fix i assume "i < Suc k"
        then have "i = k \<or> i < k" by auto
        then show "ys ! i \<le> ys ! ?r"
        proof
          assume "i = k" with False show ?thesis by simp
        next
          assume "i < k" with ub show ?thesis by simp
        qed
      qed
      with r first show ?thesis unfolding eq by simp
    qed
  qed
qed

text \<open>
  Claim C8. After a successful forward pass, a single output at or above 0.5 gives
  class 1 and below 0.5 class 0; several outputs give the index of the largest one,
  the lowest such index on a tie.
\<close>

theorem predict_threshold_and_argmax:
  assumes "forward input m = (Inr output, m')"
  shows "\<exists>c. predict input m = (Inr c, m')
     \<and> (length output = 1 \<longrightarrow> c = (if 1 / 2 \<le> output ! 0 then 1 else 0))
     \<and> (1 < length output \<longrightarrow>
          0 \<le> c \<and> nat c < length output
          \<and> (\<forall>i<length output. output ! i \<le> output ! nat c)
          \<and> (\<forall>i<nat c. output ! i < output ! nat c))"
proof -
  have p: "predict input m = (Inr (predict_class output), m')"
    using assms by (simp add: predict_def)
  have one: "length output = 1 \<longrightarrow>
      predict_class output = (if 1 / 2 \<le> output ! 0 then 1 else 0)"
    by (simp add: predict_class_def)
  have many: "1 < length output \<longrightarrow>
          0 \<le> predict_class output \<and> nat (predict_class output) < length output
          \<and> (\<forall>i<length output. output ! i \<le> output ! nat (predict_class output))
          \<and> (\<forall>i<nat (predict_class output). output ! i < output ! nat (predict_class output))"
  proof
    assume a: "1 < length output"
    then have "1 \<le> length output" by simp
    from argmax_scan [OF this, of "output"] a show "0 \<le> predict_class output
          \<and> nat (predict_class output) < length output
          \<and> (\<forall>i<length output. output ! i \<le> output ! nat (predict_class output))
          \<and> (\<forall>i<nat (predict_class output). output ! i < output ! nat (predict_class output))"
      by (simp add: predict_class_def)
  qed
  from p one many show ?thesis by blast
qed

theorem predict_threshold_and_argmax_witness:
  "forward [0] net_3class
     = (Inr [1 / 2, 1, 1], net_3class\<lparr>layer_outputs := [[0], [1 / 2, 1, 1]]\<rparr>)
   \<and> predict [0] net_3class
     = (Inr 1, net_3class\<lparr>layer_outputs := [[0], [1 / 2, 1, 1]]\<rparr>)
   \<and> forward [0, 0] net_2_2_1
     = (Inr [1 / 2], net_2_2_1\<lparr>layer_outputs := [[0, 0], [1 / 2, 1 / 2], [1 / 2]]\<rparr>)
   \<and> predict [0, 0] net_2_2_1
     = (Inr 1, net_2_2_1\<lparr>layer_outputs := [[0, 0], [1 / 2, 1 / 2], [1 / 2]]\<rparr>)
   \<and> predict_class [1 / 5, 9 / 10, 9 / 10] = 1"
proof -
  let ?out = "[1 / 2, 1, 1 :: real]"
  from predict_threshold_and_argmax [OF forward_3class] obtain c
    where p: "predict [0] net_3class
          = (Inr c, net_3class\<lparr>layer_outputs := [[0], [1 / 2, 1, 1]]\<rparr>)"
      and c0: "0 \<le> c" and c3: "nat c < 3"
      and ub: "\<forall>i<3. ?out ! i \<le> ?out ! nat c"
      and first: "\<forall>i<nat c. ?out ! i < ?out ! nat c"
    by auto
  from c3 have "nat c = 0 \<or> nat c = 1 \<or> nat c = 2" by linarith
  then have "nat c = 1"
  proof (elim disjE)
    assume z: "nat c = 0"
    from ub [rule_format, of 1] have "?out ! 1 \<le> ?out ! nat c" by simp
    with z show ?thesis by simp
  next
    assume "nat c = 1" then show ?thesis .
  next
    assume t: "nat c = 2"
    with first [rule_format, of 1] have "?out ! 1 < ?out ! nat c" by simp
    with t show ?thesis by simp
  qed
  with c0 have c: "c = 1" by simp
  from predict_threshold_and_argmax [OF forward_zero] obtain d
    where q: "predict [0, 0] net_2_2_1
          = (Inr d, net_2_2_1\<lparr>layer_outputs := [[0, 0], [1 / 2, 1 / 2], [1 / 2]]\<rparr>)"
      and d: "d = (if 1 / 2 \<le> [1 / 2 :: real] ! 0 then 1 else 0)"
    by auto
  from d have "d = 1" by simp
  moreover have "predict_class [1 / 5, 9 / 10, 9 / 10] = 1"
    by (simp add: predict_class_def upt_rec numeral_eq_Suc)
  ultimately show ?thesis using p q c forward_3class forward_zero by simp
qed

section \<open>Properties of the optimizer\<close>

subsection \<open>Random draws\<close>

lemma unit_fraction: "n < 2 ^ 32 \<Longrightarrow> 0 \<le> real n / 2 ^ 32 \<and> real n / 2 ^ 32 < 1"
  by simp

lemma unit_draw_range: "0 \<le> unit_draw w \<and> unit_draw w < 1"
proof -
  have "unat w < 2 ^ 32" using unsigned_less [of w] by simp
  from unit_fraction [OF this] show ?thesis unfolding unit_draw_def .
qed

lemma randomDouble_range:
  assumes "lo \<le> hi"
  shows "lo \<le> fst (randomDouble lo hi g) \<and> fst (randomDouble lo hi g) \<le> hi"
proof -
  let ?u = "unit_draw (shd g)"
  from unit_draw_range have u0: "0 \<le> ?u" and u1: "?u \<le> 1" by (simp_all add: less_imp_le)
  from assms have d: "0 \<le> hi - lo" by simp
  from u0 d have "0 \<le> ?u * (hi - lo)" by (rule mult_nonneg_nonneg)
  moreover from u1 d have "?u * (hi - lo) \<le> 1 * (hi - lo)" by (rule mult_right_mono)
  ultimately show ?thesis by (simp add: randomDouble_def)
qed

lemma randomInt_range:
  assumes "lo \<le> hi"
  shows "lo \<le> fst (randomInt lo hi g) \<and> fst (randomInt lo hi g) \<le> hi"
proof -
  from assms have p: "0 < hi - lo + 1" by simp
  let ?r = "int (unat (shd g)) mod (hi - lo + 1)"
  from p have "0 \<le> ?r" by (rule pos_mod_sign)
  moreover from p have "?r < hi - lo + 1" by (rule pos_mod_bound)
  ultimately show ?thesis by (simp add: randomInt_def)
qed

lemma random_cells_range:
  "lo \<le> hi \<Longrightarrow> random_cells n lo hi g = (v, g') \<Longrightarrow>
   length v = n \<and> list_all (\<lambda>x. lo \<le> x \<and> x \<le> hi) v"
proof (induction n arbitrary: g v g')
  case 0
  then show ?case by simp
next
  case (Suc n)
  obtain x g1 where d: "randomDouble lo hi g = (x, g1)" by (cases "randomDouble lo hi g")
  obtain xs g2 where r: "random_cells n lo hi g1 = (xs, g2)" by (cases "random_cells n lo hi g1")
  from randomDouble_range [OF Suc.prems(1), of g] d have x: "lo \<le> x \<and> x \<le> hi" by simp
  from Suc.IH [OF Suc.prems(1) r] have xs: "length xs = n \<and> list_all (\<lambda>x. lo \<le> x \<and> x \<le> hi) xs" .
  from Suc.prems(2) d r have "v = x # xs" by simp
  with x xs show ?case by simp
qed

lemma initialize_individuals_ok:
  "lo \<le> hi \<Longrightarrow> initialize_individuals n lo hi inds g = Inr (inds', g') \<Longrightarrow>
   length inds' = length inds
   \<and> list_all (\<lambda>ind. length (chromosome ind) = nat n \<and> fitness ind = 0
        \<and> list_all (\<lambda>x. lo \<le> x \<and> x \<le> hi) (chromosome ind)) inds'"
proof (induction inds arbitrary: g inds' g')
  case Nil
  then show ?case by simp
next
  case (Cons ind inds)
  from Cons.prems(2) obtain v g1 where rv: "randomVector n lo hi g = Inr (v, g1)"
    by (auto split: sum.splits)
  with Cons.prems(2) obtain rest g2 where rec: "initialize_individuals n lo hi inds g1 = Inr (rest, g2)"
    and res: "inds' = ind\<lparr>chromosome := v, fitness := 0\<rparr> # rest"
    by (auto split: sum.splits)
  from rv have "0 \<le> n" and "random_cells (nat n) lo hi g = (v, g1)"
    by (auto simp: randomVector_def split: if_splits)
  from random_cells_range [OF Cons.prems(1) this(2)]
  have v: "length v = nat n \<and> list_all (\<lambda>x. lo \<le> x \<and> x \<le> hi) v" .
  from Cons.IH [OF Cons.prems(1) rec] v res show ?case by simp
qed

lemma initialize_individuals_succeeds:
  "0 \<le> n \<or> inds = [] \<Longrightarrow> \<exists>r. initialize_individuals n lo hi inds g = Inr r"
proof (induction inds arbitrary: g)
  case Nil
  then show ?case by simp
next
  case (Cons ind inds)
  then have n: "0 \<le> n" by simp
  obtain v g1 where c: "random_cells (nat n) lo hi g = (v, g1)"
    by (cases "random_cells (nat n) lo hi g")
  from n have "\<exists>r. initialize_individuals n lo hi inds g1 = Inr r" by (intro Cons.IH) simp
  then obtain rest g2 where "initialize_individuals n lo hi inds g1 = Inr (rest, g2)" by auto
  with n c show ?case by (simp add: randomVector_def)
qed

lemma max_element_from_mem: "max_element_from b xs \<in> set (b # xs)"
  by (induction xs arbitrary: b) auto

lemma max_element_from_ge:
  "fitness b \<le> fitness (max_element_from b xs)
   \<and> (\<forall>x \<in> set xs. fitness x \<le> fitness (max_element_from b xs))"
proof (induction xs arbitrary: b)
  case Nil
  then show ?case by simp
next
  case (Cons x xs)
  let ?b' = "if fitness b < fitness x then x else b"
  from Cons [of ?b'] have "fitness ?b' \<le> fitness (max_element_from ?b' xs)"
    and "\<forall>y \<in> set xs. fitness y \<le> fitness (max_element_from ?b' xs)" by simp_all
  then show ?case by (auto split: if_splits)
qed

lemma tournament_loop_mem:
  "tournament_loop n pop best g = Inr (r, g') \<Longrightarrow> r \<in> set pop \<or> r = best"
proof (induction n arbitrary: best g)
  case 0
  then show ?case by simp
next
  case (Suc n)
  from Suc.prems have ne: "pop \<noteq> []" by (auto split: if_splits)
  obtain idx g1 where d: "randomInt 0 (int (length pop) - 1) g = (idx, g1)"
    by (cases "randomInt 0 (int (length pop) - 1) g")
  from ne have "(0::int) \<le> int (length pop) - 1" by (cases pop) simp_all
  from randomInt_range [OF this, of g] d have "0 \<le> idx" and "idx \<le> int (length pop) - 1"
    by simp_all
  then have "nat idx < length pop" by linarith
  then have m: "pop ! nat idx \<in> set pop" by simp
  let ?b = "if fitness (pop ! nat idx) > fitness best then pop ! nat idx else best"
  from Suc.prems ne d have "tournament_loop n pop ?b g1 = Inr (r, g')" by simp
  from Suc.IH [OF this] m show ?case by (auto split: if_splits)
qed

lemma tournament_loop_succeeds:
  "pop \<noteq> [] \<or> n = 0 \<Longrightarrow> \<exists>r. tournament_loop n pop best g = Inr r"
proof (induction n arbitrary: best g)
  case 0
  then show ?case by simp
next
  case (Suc n)
  then have ne: "pop \<noteq> []" by simp
  obtain idx g1 where d: "randomInt 0 (int (length pop) - 1) g = (idx, g1)"
    by (cases "randomInt 0 (int (length pop) - 1) g")
  from ne have "pop \<noteq> [] \<or> n = 0" by simp
  from Suc.IH [OF this] ne d show ?case by simp
qed

lemma tournament_loop_member:
  assumes "tournament_loop (Suc n) pop best g = Inr (r, g')"
    and "\<forall>x \<in> set pop. fitness best < fitness x"
  shows "r \<in> set pop"
proof -
  from assms(1) have ne: "pop \<noteq> []" by (auto split: if_splits)
  obtain idx g1 where d: "randomInt 0 (int (length pop) - 1) g = (idx, g1)"
    by (cases "randomInt 0 (int (length pop) - 1) g")
  from ne have "(0::int) \<le> int (length pop) - 1" by (cases pop) simp_all
  from randomInt_range [OF this, of g] d have "0 \<le> idx" and "idx \<le> int (length pop) - 1"
    by simp_all
  then have "nat idx < length pop" by linarith
  then have m: "pop ! nat idx \<in> set pop" by simp
  with assms(2) have "fitness best < fitness (pop ! nat idx)" by blast
  with assms(1) ne d have "tournament_loop n pop (pop ! nat idx) g1 = Inr (r, g')" by simp
  from tournament_loop_mem [OF this] m show ?thesis by auto
qed

lemma genes_in_range_update:
  "genes_in_range ind \<Longrightarrow> - 5 \<le> v \<and> v \<le> 5 \<Longrightarrow>
   genes_in_range (ind\<lparr>chromosome := (chromosome ind)[i := v]\<rparr>)"
proof -
  assume a: "genes_in_range ind" and v: "- 5 \<le> v \<and> v \<le> 5"
  have "set ((chromosome ind)[i := v]) \<subseteq> insert v (set (chromosome ind))"
    by (rule set_update_subset_insert)
  with a v show ?thesis by (auto simp: genes_in_range_def list_all_iff)
qed

lemma genes_in_range_nth:
  "genes_in_range ind \<Longrightarrow> i < length (chromosome ind) \<Longrightarrow>
   - 5 \<le> chromosome ind ! i \<and> chromosome ind ! i \<le> 5"
  by (simp add: genes_in_range_def list_all_length)

lemma crossover_genes_ok:
  "crossover_genes idxs p1 p2 c1 c2 g = Inr ((c1', c2'), g') \<Longrightarrow>
   length (chromosome c1') = length (chromosome c1)
   \<and> length (chromosome c2') = length (chromosome c2)
   \<and> (genes_in_range p1 \<and> genes_in_range p2 \<and> genes_in_range c1 \<and> genes_in_range c2
        \<longrightarrow> genes_in_range c1' \<and> genes_in_range c2')"
proof (induction idxs arbitrary: c1 c2 g)
  case Nil
  then show ?case by simp
next
  case (Cons i idxs)
  obtain coin g1 where d: "randomDouble 0 1 g = (coin, g1)"
    by (cases "randomDouble 0 1 g")
  show ?case
  proof (cases "coin < 0.5")
    case False
    with Cons.prems d have "crossover_genes idxs p1 p2 c1 c2 g1 = Inr ((c1', c2'), g')" by simp
    from Cons.IH [OF this] show ?thesis .
  next
    case True
    let ?d1 = "c1\<lparr>chromosome := (chromosome c1)[i := chromosome p2 ! i]\<rparr>"
    let ?d2 = "c2\<lparr>chromosome := (chromosome c2)[i := chromosome p1 ! i]\<rparr>"
    from True Cons.prems d have inb: "i < length (chromosome p2) \<and> i < length (chromosome p1)"
      and rec: "crossover_genes idxs p1 p2 ?d1 ?d2 g1 = Inr ((c1', c2'), g')"
      by (auto split: if_splits)
    from Cons.IH [OF rec] have len: "length (chromosome c1') = length (chromosome c1)
        \<and> length (chromosome c2') = length (chromosome c2)"
      and rng: "genes_in_range p1 \<and> genes_in_range p2 \<and> genes_in_range ?d1 \<and> genes_in_range ?d2
        \<longrightarrow> genes_in_range c1' \<and> genes_in_range c2'"
      by simp_all
    have "genes_in_range p1 \<and> genes_in_range p2 \<and> genes_in_range c1 \<and> genes_in_range c2
        \<longrightarrow> genes_in_range ?d1 \<and> genes_in_range ?d2"
      using inb by (auto intro!: genes_in_range_update dest: genes_in_range_nth)
    with len rng show ?thesis by blast
  qed
qed

lemma crossover_genes_succeeds:
  "\<forall>i \<in> set idxs. i < n \<Longrightarrow> length (chromosome p1) = n \<Longrightarrow> length (chromosome p2) = n \<Longrightarrow>
   length (chromosome c1) = n \<Longrightarrow> length (chromosome c2) = n \<Longrightarrow>
   \<exists>r. crossover_genes idxs p1 p2 c1 c2 g = Inr r"
proof (induction idxs arbitrary: c1 c2 g)
  case Nil
  then show ?case by simp
next
  case (Cons i idxs)
  obtain coin g1 where d: "randomDouble 0 1 g = (coin, g1)"
    by (cases "randomDouble 0 1 g")
  from Cons.prems(1) have i: "i < n" and rest: "\<forall>j \<in> set idxs. j < n" by simp_all
  show ?case
  proof (cases "coin < 0.5")
    case False
    from Cons.IH [OF rest Cons.prems(2,3,4,5), of g1] False d show ?thesis by simp
  next
    case True
    let ?d1 = "c1\<lparr>chromosome := (chromosome c1)[i := chromosome p2 ! i]\<rparr>"
    let ?d2 = "c2\<lparr>chromosome := (chromosome c2)[i := chromosome p1 ! i]\<rparr>"
    have "\<exists>r. crossover_genes idxs p1 p2 ?d1 ?d2 g1 = Inr r"
      by (rule Cons.IH [OF rest Cons.prems(2,3)]) (simp_all add: Cons.prems)
    with True d i Cons.prems show ?thesis by simp
  qed
qed

lemma crossover_ok:
  "crossover p1 p2 s g = Inr ((c1, c2), g') \<Longrightarrow>
   length (chromosome c1) = length (chromosome p1)
   \<and> length (chromosome c2) = length (chromosome p2)
   \<and> (genes_in_range p1 \<and> genes_in_range p2 \<longrightarrow> genes_in_range c1 \<and> genes_in_range c2)"
proof -
  assume a: "crossover p1 p2 s g = Inr ((c1, c2), g')"
  obtain r g1 where d: "randomDouble 0 1 g = (r, g1)" by (cases "randomDouble 0 1 g")
  show ?thesis
  proof (cases "r < crossover_rate (config s)")
    case False
    with a d show ?thesis by (simp add: crossover_def)
  next
    case True
    with a d have "crossover_genes [0..<nat (chromosome_length s)] p1 p2 p1 p2 g1
        = Inr ((c1, c2), g')" by (simp add: crossover_def)
    from crossover_genes_ok [OF this] show ?thesis by blast
  qed
qed

lemma crossover_succeeds:
  "length (chromosome p1) = nat (chromosome_length s) \<Longrightarrow>
   length (chromosome p2) = nat (chromosome_length s) \<Longrightarrow>
   \<exists>r. crossover p1 p2 s g = Inr r"
proof -
  assume l1: "length (chromosome p1) = nat (chromosome_length s)"
    and l2: "length (chromosome p2) = nat (chromosome_length s)"
  obtain r g1 where d: "randomDouble 0 1 g = (r, g1)" by (cases "randomDouble 0 1 g")
  have "\<exists>r. crossover_genes [0..<nat (chromosome_length s)] p1 p2 p1 p2 g1 = Inr r"
    by (rule crossover_genes_succeeds [OF _ l1 l2 l1 l2]) simp
  with d show ?thesis by (simp add: crossover_def)
qed

lemma clamp_range: "- 5 \<le> clamp v (- 5) 5 \<and> clamp v (- 5) 5 \<le> 5"
  by (simp add: clamp_def)

lemma mutate_genes_ok:
  "mutate_genes idxs cfg ind g = Inr (ind', g') \<Longrightarrow>
   length (chromosome ind') = length (chromosome ind)
   \<and> (genes_in_range ind \<longrightarrow> genes_in_range ind')"
proof (induction idxs arbitrary: ind g)
  case Nil
  then show ?case by simp
next
  case (Cons i idxs)
  obtain r g1 where d: "randomDouble 0 1 g = (r, g1)" by (cases "randomDouble 0 1 g")
  show ?case
  proof (cases "r < mutation_rate cfg")
    case False
    with Cons.prems d have "mutate_genes idxs cfg ind g1 = Inr (ind', g')" by simp
    from Cons.IH [OF this] show ?thesis .
  next
    case True
    obtain noise g2
      where n: "randomDouble (- mutation_strength cfg) (mutation_strength cfg) g1 = (noise, g2)"
      by (cases "randomDouble (- mutation_strength cfg) (mutation_strength cfg) g1")
    let ?m = "ind\<lparr>chromosome := (chromosome ind)
                 [i := clamp (chromosome ind ! i + noise) (- 5) 5]\<rparr>"
    from True Cons.prems d n have rec: "mutate_genes idxs cfg ?m g2 = Inr (ind', g')"
      by (auto split: if_splits)
    have "genes_in_range ind \<longrightarrow> genes_in_range ?m"
      using clamp_range [of "chromosome ind ! i + noise"]
      by (auto intro!: genes_in_range_update)
    with Cons.IH [OF rec] show ?thesis by simp
  qed
qed

lemma mutate_genes_succeeds:
  "\<forall>i \<in> set idxs. i < length (chromosome ind) \<Longrightarrow> \<exists>r. mutate_genes idxs cfg ind g = Inr r"
proof (induction idxs arbitrary: ind g)
  case Nil
  then show ?case by simp
next
  case (Cons i idxs)
  obtain r g1 where d: "randomDouble 0 1 g = (r, g1)" by (cases "randomDouble 0 1 g")
  from Cons.prems have i: "i < length (chromosome ind)"
    and rest: "\<forall>j \<in> set idxs. j < length (chromosome ind)" by simp_all
  show ?case
  proof (cases "r < mutation_rate cfg")
    case False
    from Cons.IH [OF rest, of g1] False d show ?thesis by simp
  next
    case True
    obtain noise g2
      where n: "randomDouble (- mutation_strength cfg) (mutation_strength cfg) g1 = (noise, g2)"
      by (cases "randomDouble (- mutation_strength cfg) (mutation_strength cfg) g1")
    let ?m = "ind\<lparr>chromosome := (chromosome ind)
                 [i := clamp (chromosome ind ! i + noise) (- 5) 5]\<rparr>"
    from rest have "\<forall>j \<in> set idxs. j < length (chromosome ?m)" by simp
    from Cons.IH [OF this, of g2] True d n i show ?thesis by simp
  qed
qed

lemma mutate_ok:
  "mutate ind s g = Inr (ind', g') \<Longrightarrow>
   length (chromosome ind') = length (chromosome ind)
   \<and> (genes_in_range ind \<longrightarrow> genes_in_range ind')"
  unfolding mutate_def by (rule mutate_genes_ok)

lemma mutate_succeeds:
  "length (chromosome ind) = nat (chromosome_length s) \<Longrightarrow> \<exists>r. mutate ind s g = Inr r"
  unfolding mutate_def by (rule mutate_genes_succeeds) simp

lemma tournamentSelection_mem:
  "tournamentSelection s g = Inr (r, g') \<Longrightarrow>
   r \<in> set (population s) \<or> r = Individual_new\<lparr>fitness := - 1\<rparr>"
  unfolding tournamentSelection_def by (rule tournament_loop_mem)

lemma tournamentSelection_range:
  "tournamentSelection s g = Inr (r, g') \<Longrightarrow> list_all genes_in_range (population s) \<Longrightarrow>
   genes_in_range r"
  by (drule tournamentSelection_mem)
     (auto simp: list_all_iff genes_in_range_def Individual_new_def)

lemma tournamentSelection_member:
  assumes "tournamentSelection s g = Inr (r, g')" and "1 \<le> tournament_size (config s)"
    and "\<forall>x \<in> set (population s). - 1 < fitness x"
  shows "r \<in> set (population s)"
proof -
  from assms(2) obtain n where n: "nat (tournament_size (config s)) = Suc n"
    by (cases "nat (tournament_size (config s))") auto
  from assms(1) have "tournament_loop (Suc n) (population s)
      (Individual_new\<lparr>fitness := - 1\<rparr>) g = Inr (r, g')"
    by (simp add: tournamentSelection_def n)
  then show ?thesis
    by (rule tournament_loop_member) (use assms(3) in simp)
qed

lemma tournamentSelection_succeeds:
  "population s \<noteq> [] \<Longrightarrow> \<exists>r. tournamentSelection s g = Inr r"
  unfolding tournamentSelection_def by (rule tournament_loop_succeeds) simp

lemma breed_parts:
  assumes "breed s g = Inr ((c1', c2'), g')"
  shows "\<exists>p1 g1 p2 g2 c1 c2 g3 g4.
      tournamentSelection s g = Inr (p1, g1) \<and> tournamentSelection s g1 = Inr (p2, g2)
      \<and> crossover p1 p2 s g2 = Inr ((c1, c2), g3)
      \<and> mutate c1 s g3 = Inr (c1', g4) \<and> mutate c2 s g4 = Inr (c2', g')"
  using assms by (auto simp: breed_def split: sum.splits prod.splits)

lemma breed_range:
  assumes "breed s g = Inr ((c1', c2'), g')" and "list_all genes_in_range (population s)"
  shows "genes_in_range c1' \<and> genes_in_range c2'"
proof -
  from breed_parts [OF assms(1)] obtain p1 g1 p2 g2 c1 c2 g3 g4
    where t1: "tournamentSelection s g = Inr (p1, g1)"
      and t2: "tournamentSelection s g1 = Inr (p2, g2)"
      and x: "crossover p1 p2 s g2 = Inr ((c1, c2), g3)"
      and m1: "mutate c1 s g3 = Inr (c1', g4)" and m2: "mutate c2 s g4 = Inr (c2', g')"
    by blast
  from tournamentSelection_range [OF t1 assms(2)] have r1: "genes_in_range p1" .
  from tournamentSelection_range [OF t2 assms(2)] have r2: "genes_in_range p2" .
  from crossover_ok [OF x] r1 r2 have "genes_in_range c1" and "genes_in_range c2" by simp_all
  with mutate_ok [OF m1] mutate_ok [OF m2] show ?thesis by simp
qed

lemma breed_succeeds:
  assumes ne: "population s \<noteq> []" and ts: "1 \<le> tournament_size (config s)"
    and pop: "\<forall>x \<in> set (population s).
        length (chromosome x) = nat (chromosome_length s) \<and> - 1 < fitness x"
  shows "\<exists>c1 c2 g'. breed s g = Inr ((c1, c2), g')
      \<and> length (chromosome c1) = nat (chromosome_length s)
      \<and> length (chromosome c2) = nat (chromosome_length s)"
proof -
  let ?n = "nat (chromosome_length s)"
  from pop have fit: "\<forall>x \<in> set (population s). - 1 < fitness x" by simp
  from tournamentSelection_succeeds [OF ne, of g] obtain p1 g1
    where t1: "tournamentSelection s g = Inr (p1, g1)" by auto
  from tournamentSelection_succeeds [OF ne, of g1] obtain p2 g2
    where t2: "tournamentSelection s g1 = Inr (p2, g2)" by auto
  from tournamentSelection_member [OF t1 ts fit] pop have l1: "length (chromosome p1) = ?n" by simp
  from tournamentSelection_member [OF t2 ts fit] pop have l2: "length (chromosome p2) = ?n" by simp
  from crossover_succeeds [OF l1 l2, of g2] obtain c1 c2 g3
    where x: "crossover p1 p2 s g2 = Inr ((c1, c2), g3)" by auto
  from crossover_ok [OF x] l1 l2 have k1: "length (chromosome c1) = ?n"
    and k2: "length (chromosome c2) = ?n" by simp_all
  from mutate_succeeds [OF k1, of g3] obtain d1 g4 where m1: "mutate c1 s g3 = Inr (d1, g4)" by auto
  from mutate_succeeds [OF k2, of g4] obtain d2 g5 where m2: "mutate c2 s g4 = Inr (d2, g5)" by auto
  from mutate_ok [OF m1] mutate_ok [OF m2] k1 k2
  have "length (chromosome d1) = ?n" and "length (chromosome d2) = ?n" by simp_all
  moreover have "breed s g = Inr ((d1, d2), g5)"
    by (simp add: breed_def t1 t2 x m1 m2)
  ultimately show ?thesis by blast
qed

lemma make_offspring_step:
  assumes "make_offspring s off g = Inr (off', g')"
    and "int (length off) < population_size (config s)"
  shows "\<exists>c1 c2 g1. breed s g = Inr ((c1, c2), g1)
     \<and> make_offspring s
          (if int (length (off @ [c1])) < population_size (config s)
           then off @ [c1] @ [c2] else off @ [c1]) g1 = Inr (off', g')"
proof (cases "breed s g")
  case (Inl e)
  with assms show ?thesis by (subst (asm) make_offspring.simps) simp
next
  case (Inr r)
  obtain c1 c2 g1 where r: "r = ((c1, c2), g1)" by (cases r) auto
  from assms Inr r have "make_offspring s
          (if int (length (off @ [c1])) < population_size (config s)
           then off @ [c1] @ [c2] else off @ [c1]) g1 = Inr (off', g')"
    by (subst (asm) make_offspring.simps) simp
  with Inr r show ?thesis by blast
qed

lemma make_offspring_stop:
  "\<not> int (length off) < population_size (config s) \<Longrightarrow> make_offspring s off g = Inr (off, g)"
  by (subst make_offspring.simps) simp

lemma make_offspring_all:
  assumes children: "\<And>g c1 c2 g'. breed s g = Inr ((c1, c2), g') \<Longrightarrow> P c1 \<and> P c2"
  shows "make_offspring s off g = Inr (off', g') \<Longrightarrow> list_all P off \<Longrightarrow>
     int (length off) \<le> population_size (config s) \<Longrightarrow>
     list_all P off' \<and> int (length off') = population_size (config s)"
proof (induction "nat (population_size (config s)) - length off" arbitrary: off g rule: less_induct)
  case less
  show ?case
  proof (cases "int (length off) < population_size (config s)")
    case False
    with less.prems(1) have "off' = off" by (simp add: make_offspring_stop)
    with less.prems False show ?thesis by simp
  next
    case True
    from make_offspring_step [OF less.prems(1) True] obtain c1 c2 g1
      where b: "breed s g = Inr ((c1, c2), g1)"
        and rec: "make_offspring s
          (if int (length (off @ [c1])) < population_size (config s)
           then off @ [c1] @ [c2] else off @ [c1]) g1 = Inr (off', g')"
      by blast
    let ?next = "if int (length (off @ [c1])) < population_size (config s)
           then off @ [c1] @ [c2] else off @ [c1]"
    from children [OF b] less.prems(2) have all: "list_all P ?next" by simp
    from True have le: "int (length ?next) \<le> population_size (config s)" by simp
    from True have "nat (population_size (config s)) - length ?next
        < nat (population_size (config s)) - length off" by auto
    from less.hyps [OF this rec all le] show ?thesis .
  qed
qed

lemma make_offspring_succeeds:
  assumes children: "\<And>g. \<exists>r. breed s g = Inr r"
  shows "\<exists>r. make_offspring s off g = Inr r"
proof (induction "nat (population_size (config s)) - length off" arbitrary: off g rule: less_induct)
  case less
  show ?case
  proof (cases "int (length off) < population_size (config s)")
    case False
    then show ?thesis by (simp add: make_offspring_stop)
  next
    case True
    from children [of g] obtain c1 c2 g1 where b: "breed s g = Inr ((c1, c2), g1)" by auto
    let ?next = "if int (length (off @ [c1])) < population_size (config s)
           then off @ [c1] @ [c2] else off @ [c1]"
    from True have "nat (population_size (config s)) - length ?next
        < nat (population_size (config s)) - length off" by auto
    from less.hyps [OF this, of g1] obtain r where "make_offspring s ?next g1 = Inr r" by blast
    with True b show ?thesis by (subst make_offspring.simps) simp
  qed
qed

lemma evaluate_all_Some:
  "evaluate_all (Some f) inds = Inr (map (\<lambda>ind. ind\<lparr>fitness := f (chromosome ind)\<rparr>) inds)"
  by (cases inds) simp_all

lemma set_sort_descending: "set (sort_descending xs) = set xs"
  by (simp add: sort_descending_def)

lemma length_sort_descending: "length (sort_descending xs) = length xs"
  by (simp add: sort_descending_def)

lemma replacePopulation_frame:
  "replacePopulation ev s = s\<lparr>population := population (replacePopulation ev s)\<rparr>"
  by (simp add: replacePopulation_def Let_def)

lemma replacePopulation_set:
  "set (population (replacePopulation ev s)) \<subseteq> set (population s) \<union> set ev"
proof -
  have "\<And>n xs. set (take n (sort_descending xs)) \<subseteq> set xs"
    using set_take_subset set_sort_descending by fast
  then show ?thesis
    by (auto simp: replacePopulation_def Let_def)
qed

lemma replacePopulation_length:
  assumes "length (population s) = nat (population_size (config s))"
    and "length ev = nat (population_size (config s))"
  shows "length (population (replacePopulation ev s)) = nat (population_size (config s))"
  using assms by (simp add: replacePopulation_def Let_def length_sort_descending min_def)









lemma generation_parts:
  assumes "generation s g = Inr (s', g')"
  shows "\<exists>off ev. make_offspring s [] g = Inr (off, g')
     \<and> evaluate_all (fitness_function s) off = Inr ev
     \<and> s' = (replacePopulation ev s)
          \<lparr>best_fitness_history := best_fitness_history s @ [best_fitness s],
           avg_fitness_history := avg_fitness_history s
             @ [fold (\<lambda>ind total. total + fitness ind) (population (replacePopulation ev s)) 0
                / real (length (population (replacePopulation ev s)))]\<rparr>"
proof -
  from assms obtain off g1 where mo: "make_offspring s [] g = Inr (off, g1)"
    by (auto simp: generation_def split: sum.splits)
  with assms obtain ev where ev: "evaluate_all (fitness_function s) off = Inr ev"
    by (auto simp: generation_def split: sum.splits)
  have fr: "replacePopulation ev s = s\<lparr>population := population (replacePopulation ev s)\<rparr>"
    by (rule replacePopulation_frame)
  from assms mo ev have "g1 = g'" by (simp add: generation_def Let_def)
  moreover from assms mo ev have "s' = (replacePopulation ev s)
          \<lparr>best_fitness_history := best_fitness_history (replacePopulation ev s)
              @ [best_fitness (replacePopulation ev s)],
           avg_fitness_history := avg_fitness_history (replacePopulation ev s)
             @ [fold (\<lambda>ind total. total + fitness ind) (population (replacePopulation ev s)) 0
                / real (length (population (replacePopulation ev s)))]\<rparr>"
    by (simp add: generation_def Let_def)
  moreover have "best_fitness_history (replacePopulation ev s) = best_fitness_history s"
    and "best_fitness (replacePopulation ev s) = best_fitness s"
    and "avg_fitness_history (replacePopulation ev s) = avg_fitness_history s"
    by (subst fr, simp)+
  ultimately show ?thesis using mo ev by simp
qed

lemma generation_history:
  assumes "generation s g = Inr (s', g')"
  shows "best_fitness s' = best_fitness s \<and> best_individual s' = best_individual s
     \<and> best_fitness_history s' = best_fitness_history s @ [best_fitness s]
     \<and> (\<exists>a. avg_fitness_history s' = avg_fitness_history s @ [a])"
proof -
  from generation_parts [OF assms] obtain off ev where
    s': "s' = (replacePopulation ev s)
          \<lparr>best_fitness_history := best_fitness_history s @ [best_fitness s],
           avg_fitness_history := avg_fitness_history s
             @ [fold (\<lambda>ind total. total + fitness ind) (population (replacePopulation ev s)) 0
                / real (length (population (replacePopulation ev s)))]\<rparr>"
    by blast
  have fr: "replacePopulation ev s = s\<lparr>population := population (replacePopulation ev s)\<rparr>"
    by (rule replacePopulation_frame)
  have "best_fitness (replacePopulation ev s) = best_fitness s"
    and "best_individual (replacePopulation ev s) = best_individual s"
    by (subst fr, simp)+
  then show ?thesis by (simp add: s')
qed

lemma generation_inv:
  assumes inv: "ga_inv cfg len f s" and gen: "generation s g = Inr (s', g')"
  shows "ga_inv cfg len f s'"
proof -
  from inv have cfg: "config s = cfg" and len: "chromosome_length s = len"
    and ff: "fitness_function s = Some f" and n0: "0 \<le> population_size (config s)"
    and n: "length (population s) = nat (population_size (config s))"
    and rng: "list_all genes_in_range (population s)"
    and ev: "list_all (evaluated_by f) (population s)"
    by (simp_all add: ga_inv_def)
  from generation_parts [OF gen] ff obtain off where
    mo: "make_offspring s [] g = Inr (off, g')"
    and s': "s' = (replacePopulation (map (\<lambda>ind. ind\<lparr>fitness := f (chromosome ind)\<rparr>) off) s)
          \<lparr>best_fitness_history := best_fitness_history s @ [best_fitness s],
           avg_fitness_history := avg_fitness_history s
             @ [fold (\<lambda>ind total. total + fitness ind)
                  (population (replacePopulation (map (\<lambda>ind. ind\<lparr>fitness := f (chromosome ind)\<rparr>) off) s)) 0
                / real (length (population (replacePopulation (map (\<lambda>ind. ind\<lparr>fitness := f (chromosome ind)\<rparr>) off) s)))]\<rparr>"
    by (auto simp: evaluate_all_Some)
  let ?ev = "map (\<lambda>ind. ind\<lparr>fitness := f (chromosome ind)\<rparr>) off"
  let ?r = "replacePopulation ?ev s"
  have fr: "?r = s\<lparr>population := population ?r\<rparr>" by (rule replacePopulation_frame)
  have same: "config ?r = config s" "chromosome_length ?r = chromosome_length s"
    "fitness_function ?r = fitness_function s"
    by (subst fr, simp)+
  have "\<And>g c1 c2 g'. breed s g = Inr ((c1, c2), g') \<Longrightarrow> genes_in_range c1 \<and> genes_in_range c2"
    using rng by (rule breed_range [rotated])
  from make_offspring_all [of s genes_in_range, OF this mo] n0
  have off: "list_all genes_in_range off" and loff: "int (length off) = population_size (config s)"
    by simp_all
  from off have ev_rng: "list_all genes_in_range ?ev"
    by (simp add: list_all_iff genes_in_range_def)
  have ev_ev: "list_all (evaluated_by f) ?ev"
    by (simp add: list_all_iff evaluated_by_def)
  from loff have lev: "length ?ev = nat (population_size (config s))" by simp
  have sub: "set (population ?r) \<subseteq> set (population s) \<union> set ?ev"
    by (rule replacePopulation_set)
  from sub rng ev_rng have r1: "list_all genes_in_range (population ?r)"
    unfolding list_all_iff by blast
  from sub ev ev_ev have r2: "list_all (evaluated_by f) (population ?r)"
    unfolding list_all_iff by blast
  from replacePopulation_length [OF n lev]
  have r3: "length (population ?r) = nat (population_size (config s))" .
  show ?thesis
    unfolding ga_inv_def s' using same cfg len ff n0 r1 r2 r3 by simp
qed

lemma generation_lengths:
  assumes gen: "generation s g = Inr (s', g')" and ff: "fitness_function s = Some f"
    and l: "list_all (\<lambda>ind. length (chromosome ind) = n) (population s)"
    and ready: "ga_ready s" and nn: "nat (chromosome_length s) = n"
  shows "list_all (\<lambda>ind. length (chromosome ind) = n) (population s')"
proof -
  from generation_parts [OF gen] ff obtain off where
    mo: "make_offspring s [] g = Inr (off, g')"
    and pop: "population s' = population (replacePopulation (map (\<lambda>ind. ind\<lparr>fitness := f (chromosome ind)\<rparr>) off) s)"
    by (auto simp: evaluate_all_Some)
  let ?ev = "map (\<lambda>ind. ind\<lparr>fitness := f (chromosome ind)\<rparr>) off"
  from ready have ne: "population s \<noteq> []" and ts: "1 \<le> tournament_size (config s)"
    and rp: "\<forall>x \<in> set (population s).
        length (chromosome x) = nat (chromosome_length s) \<and> - 1 < fitness x"
    by (simp_all add: ga_ready_def list_all_iff)
  have ch: "\<And>g c1 c2 g'. breed s g = Inr ((c1, c2), g') \<Longrightarrow>
      length (chromosome c1) = n \<and> length (chromosome c2) = n"
  proof -
    fix g c1 c2 g' assume b: "breed s g = Inr ((c1, c2), g')"
    from breed_succeeds [OF ne ts rp, of g] b nn
    show "length (chromosome c1) = n \<and> length (chromosome c2) = n" by auto
  qed
  from ne have "0 \<le> population_size (config s) \<or> population_size (config s) < 0" by linarith
  then have "list_all (\<lambda>ind. length (chromosome ind) = n) off"
  proof
    assume "0 \<le> population_size (config s)"
    with make_offspring_all [of s "\<lambda>ind. length (chromosome ind) = n", OF ch mo]
    show ?thesis by simp
  next
    assume "population_size (config s) < 0"
    with mo have "off = []" by (simp add: make_offspring_stop)
    then show ?thesis by simp
  qed
  then have "list_all (\<lambda>ind. length (chromosome ind) = n) ?ev" by (simp add: list_all_iff)
  with l replacePopulation_set [of ?ev s] show ?thesis
    unfolding pop list_all_iff by blast
qed

lemma generation_succeeds:
  assumes inv: "ga_inv cfg len f s" and ready: "ga_ready s" and fit: "\<forall>c. - 1 < f c"
  shows "\<exists>s' g'. generation s g = Inr (s', g') \<and> ga_ready s'"
proof -
  from inv have ff: "fitness_function s = Some f"
    and n: "length (population s) = nat (population_size (config s))"
    and ev: "list_all (evaluated_by f) (population s)"
    by (simp_all add: ga_inv_def)
  from ready have ne: "population s \<noteq> []" and ts: "1 \<le> tournament_size (config s)"
    and rp: "\<forall>x \<in> set (population s).
        length (chromosome x) = nat (chromosome_length s) \<and> - 1 < fitness x"
    by (simp_all add: ga_ready_def list_all_iff)
  have "\<And>g. \<exists>r. breed s g = Inr r"
    using breed_succeeds [OF ne ts rp] by blast
  from make_offspring_succeeds [of s "[]" g, OF this] obtain off g'
    where mo: "make_offspring s [] g = Inr (off, g')" by auto
  let ?ev = "map (\<lambda>ind. ind\<lparr>fitness := f (chromosome ind)\<rparr>) off"
  let ?r = "replacePopulation ?ev s"
  let ?s' = "?r\<lparr>best_fitness_history := best_fitness_history ?r @ [best_fitness ?r],
           avg_fitness_history := avg_fitness_history ?r
             @ [fold (\<lambda>ind total. total + fitness ind) (population ?r) 0
                / real (length (population ?r))]\<rparr>"
  have gen: "generation s g = Inr (?s', g')"
    by (simp add: generation_def mo ff evaluate_all_Some Let_def)
  from generation_inv [OF inv gen] have inv': "ga_inv cfg len f ?s'" .
  have fr: "?r = s\<lparr>population := population ?r\<rparr>" by (rule replacePopulation_frame)
  have same: "config ?r = config s" "chromosome_length ?r = chromosome_length s"
    by (subst fr, simp)+
  from rp have l: "list_all (\<lambda>ind. length (chromosome ind) = nat (chromosome_length s)) (population s)"
    by (simp add: list_all_iff)
  from generation_lengths [OF gen ff l ready refl]
  have l': "list_all (\<lambda>ind. length (chromosome ind) = nat (chromosome_length s)) (population ?s')" .
  from inv' have "list_all (evaluated_by f) (population ?s')"
    and n': "length (population ?s') = nat (population_size cfg)" and c: "config s = cfg"
    using inv by (simp_all add: ga_inv_def)
  with fit have f': "list_all (\<lambda>ind. - 1 < fitness ind) (population ?s')"
    by (simp add: list_all_iff evaluated_by_def)
  from n n' c ne have ne': "population ?s' \<noteq> []" by auto
  from l' f' have "list_all (\<lambda>individual. length (chromosome individual) = nat (chromosome_length s)
                      \<and> - 1 < fitness individual) (population ?s')"
    by (simp add: list_all_iff)
  with ne' ts same have "ga_ready ?s'" by (simp add: ga_ready_def)
  with gen show ?thesis by blast
qed

lemma evolve_loop_inv:
  "ga_inv cfg len f s \<Longrightarrow> evolve_loop k s g = Inr (s', g') \<Longrightarrow> ga_inv cfg len f s'"
proof (induction k arbitrary: s g)
  case 0
  then show ?case by simp
next
  case (Suc k)
  from Suc.prems(2) obtain s1 g1 where gen: "generation s g = Inr (s1, g1)"
    and rest: "evolve_loop k s1 g1 = Inr (s', g')"
    by (auto split: sum.splits)
  from Suc.IH [OF generation_inv [OF Suc.prems(1) gen] rest] show ?case .
qed

lemma evolve_loop_history:
  "evolve_loop k s g = Inr (s', g') \<Longrightarrow>
   best_fitness s' = best_fitness s \<and> best_individual s' = best_individual s
   \<and> best_fitness_history s' = best_fitness_history s @ replicate k (best_fitness s)
   \<and> length (avg_fitness_history s') = length (avg_fitness_history s) + k"
proof (induction k arbitrary: s g)
  case 0
  then show ?case by simp
next
  case (Suc k)
  from Suc.prems obtain s1 g1 where gen: "generation s g = Inr (s1, g1)"
    and rest: "evolve_loop k s1 g1 = Inr (s', g')"
    by (auto split: sum.splits)
  from generation_history [OF gen] obtain a where
    h: "best_fitness s1 = best_fitness s" "best_individual s1 = best_individual s"
      "best_fitness_history s1 = best_fitness_history s @ [best_fitness s]"
      "avg_fitness_history s1 = avg_fitness_history s @ [a]"
    by blast
  from Suc.IH [OF rest] h show ?case by (simp add: replicate_append_same)
qed

lemma evolve_loop_succeeds:
  "ga_inv cfg len f s \<Longrightarrow> ga_ready s \<Longrightarrow> \<forall>c. - 1 < f c \<Longrightarrow>
   \<exists>s' g'. evolve_loop k s g = Inr (s', g')"
proof (induction k arbitrary: s g)
  case 0
  then show ?case by simp
next
  case (Suc k)
  from generation_succeeds [OF Suc.prems, of g] obtain s1 g1
    where gen: "generation s g = Inr (s1, g1)" and r1: "ga_ready s1" by blast
  from Suc.IH [OF generation_inv [OF Suc.prems(1) gen] r1 Suc.prems(3), of g1] gen
  show ?case by simp
qed

lemma evolve_loop_snoc:
  "evolve_loop (Suc k) s g =
     (case evolve_loop k s g of Inl e \<Rightarrow> Inl e | Inr (s', g') \<Rightarrow> generation s' g')"
proof (induction k arbitrary: s g)
  case 0
  show ?case by (simp split: sum.splits)
next
  case (Suc k)
  show ?case
  proof (cases "generation s g")
    case (Inl e)
    then show ?thesis by simp
  next
    case (Inr r)
    obtain s1 g1 where r: "r = (s1, g1)" by (cases r)
    have "evolve_loop (Suc (Suc k)) s g = evolve_loop (Suc k) s1 g1"
      using Inr r by simp
    also have "\<dots> = (case evolve_loop k s1 g1 of Inl e \<Rightarrow> Inl e | Inr (s', g') \<Rightarrow> generation s' g')"
      by (rule Suc.IH)
    also have "evolve_loop k s1 g1 = evolve_loop (Suc k) s g"
      using Inr r by simp
    finally show ?thesis .
  qed
qed

lemma evaluateFitness_parts:
  assumes "evaluateFitness s = Inr s'" and "fitness_function s = Some f"
  shows "population s \<noteq> []
     \<and> population s' = map (\<lambda>ind. ind\<lparr>fitness := f (chromosome ind)\<rparr>) (population s)
     \<and> config s' = config s \<and> chromosome_length s' = chromosome_length s
     \<and> fitness_function s' = fitness_function s
     \<and> best_fitness_history s' = best_fitness_history s
     \<and> avg_fitness_history s' = avg_fitness_history s"
proof (cases "population s")
  case Nil
  with assms show ?thesis by (simp add: evaluateFitness_def)
next
  case (Cons x xs)
  with assms show ?thesis
    by (auto simp: evaluateFitness_def Let_def split: if_splits)
qed

lemma evaluateFitness_succeeds:
  "population s \<noteq> [] \<Longrightarrow> fitness_function s = Some f \<Longrightarrow> \<exists>s'. evaluateFitness s = Inr s'"
  by (cases "population s") (simp_all add: evaluateFitness_def Let_def)

lemma max_element_from_Max: "fitness (max_element_from b xs) = Max (fitness ` set (b # xs))"
proof (rule Max_eqI [symmetric])
  show "finite (fitness ` set (b # xs))" by simp
next
  fix y assume "y \<in> fitness ` set (b # xs)"
  then show "y \<le> fitness (max_element_from b xs)"
    using max_element_from_ge [of b xs] by auto
next
  show "fitness (max_element_from b xs) \<in> fitness ` set (b # xs)"
    using max_element_from_mem [of b xs] by blast
qed

text \<open>
  The evaluation pass does scan for the maximum: afterwards the best-ever fitness is the
  larger of its old value and the largest fitness in the population.
\<close>

lemma evaluateFitness_best:
  assumes "evaluateFitness s = Inr s'"
  shows "best_fitness s' = max (best_fitness s) (Max (fitness ` set (population s')))"
proof -
  from assms obtain x xs where ev: "evaluate_all (fitness_function s) (population s) = Inr (x # xs)"
    by (auto simp: evaluateFitness_def split: sum.splits list.splits)
  let ?b = "max_element_from x xs"
  from assms ev have p: "population s' = x # xs"
    by (auto simp: evaluateFitness_def Let_def split: if_splits)
  from assms ev have "best_fitness s' = (if fitness ?b > best_fitness s then fitness ?b else best_fitness s)"
    by (auto simp: evaluateFitness_def Let_def split: if_splits)
  then show ?thesis
    unfolding p max_element_from_Max [symmetric] by (simp add: max_def)
qed


lemma GeneticAlgorithm_new_fields:
  assumes "GeneticAlgorithm_new len cfg = Inr s0"
  shows "config s0 = cfg \<and> chromosome_length s0 = len \<and> 0 \<le> population_size cfg
     \<and> (0 \<le> len \<or> population s0 = [])
     \<and> length (population s0) = nat (population_size cfg)
     \<and> best_fitness s0 = 0 \<and> best_fitness_history s0 = [] \<and> avg_fitness_history s0 = []"
  using assms by (auto simp: GeneticAlgorithm_new_def split: if_splits)

lemma initializePopulation_parts:
  assumes "initializePopulation lo hi s g = Inr (s1, g1)"
  shows "\<exists>p. initialize_individuals (chromosome_length s) lo hi (population s) g = Inr (p, g1)
      \<and> s1 = s\<lparr>population := p\<rparr>"
  using assms by (auto simp: initializePopulation_def split: sum.splits)

text \<open>The state in which the loop of \<open>evolve\<close> starts.\<close>

lemma evolve_upto_parts:
  assumes new: "GeneticAlgorithm_new len cfg = Inr s0"
    and run: "evolve_upto k (setFitnessFunction (Some f) s0) g = Inr (s, g')"
  shows "\<exists>s2 g1. evolve_loop k s2 g1 = Inr (s, g') \<and> ga_inv cfg len f s2
     \<and> best_fitness_history s2 = [] \<and> avg_fitness_history s2 = []"
proof -
  let ?s = "setFitnessFunction (Some f) s0"
  have ff: "fitness_function ?s = Some f" by (simp add: setFitnessFunction_def)
  from run ff obtain s1 g1 where init: "initializePopulation (- 1) 1 ?s g = Inr (s1, g1)"
    by (auto simp: evolve_upto_def split: sum.splits)
  with run ff obtain s2 where ev: "evaluateFitness s1 = Inr s2"
    and loop: "evolve_loop k s2 g1 = Inr (s, g')"
    by (auto simp: evolve_upto_def split: sum.splits)
  from initializePopulation_parts [OF init] obtain p where
    ii: "initialize_individuals (chromosome_length ?s) (- 1) 1 (population ?s) g = Inr (p, g1)"
    and s1: "s1 = ?s\<lparr>population := p\<rparr>" by blast
  have "(- 1 :: real) \<le> 1" by simp
  from initialize_individuals_ok [OF this ii]
  have lp: "length p = length (population ?s)"
    and ap: "list_all (\<lambda>ind. list_all (\<lambda>x. - 1 \<le> x \<and> x \<le> 1) (chromosome ind)) p"
    by (simp_all add: list_all_iff)
  from GeneticAlgorithm_new_fields [OF new] have f0: "config s0 = cfg" "chromosome_length s0 = len"
    "0 \<le> population_size cfg" "length (population s0) = nat (population_size cfg)"
    "best_fitness_history s0 = []" "avg_fitness_history s0 = []" by simp_all
  from s1 have ff1: "fitness_function s1 = Some f" by (simp add: setFitnessFunction_def)
  from evaluateFitness_parts [OF ev ff1] s1 have
    p2: "population s2 = map (\<lambda>ind. ind\<lparr>fitness := f (chromosome ind)\<rparr>) p"
    and fr: "config s2 = cfg" "chromosome_length s2 = len" "fitness_function s2 = Some f"
      "best_fitness_history s2 = []" "avg_fitness_history s2 = []"
    using f0 by (simp_all add: setFitnessFunction_def)
  have "list_all genes_in_range p"
    unfolding list_all_iff genes_in_range_def
  proof (intro ballI)
    fix ind x assume "ind \<in> set p" and "x \<in> set (chromosome ind)"
    with ap have "- 1 \<le> x \<and> x \<le> 1" by (simp add: list_all_iff)
    then show "- 5 \<le> x \<and> x \<le> 5" by simp
  qed
  then have r: "list_all genes_in_range (population s2)"
    by (simp add: p2 list_all_iff genes_in_range_def)
  have e: "list_all (evaluated_by f) (population s2)"
    by (simp add: p2 list_all_iff evaluated_by_def)
  from lp f0 have l: "length (population s2) = nat (population_size cfg)"
    by (simp add: p2 setFitnessFunction_def)
  from fr f0 r e l have "ga_inv cfg len f s2" by (simp add: ga_inv_def)
  with loop fr show ?thesis by blast
qed

lemma evolve_upto_start_succeeds:
  assumes new: "GeneticAlgorithm_new len cfg = Inr s0" and n: "1 \<le> population_size cfg"
    and ts: "1 \<le> tournament_size cfg" and fit: "\<forall>c. - 1 < f c"
  shows "\<exists>s1 g1 s2. initializePopulation (- 1) 1 (setFitnessFunction (Some f) s0) g = Inr (s1, g1)
     \<and> evaluateFitness s1 = Inr s2 \<and> ga_inv cfg len f s2 \<and> ga_ready s2"
proof -
  let ?s = "setFitnessFunction (Some f) s0"
  from GeneticAlgorithm_new_fields [OF new] have f0: "config s0 = cfg" "chromosome_length s0 = len"
    "0 \<le> population_size cfg" "length (population s0) = nat (population_size cfg)"
    "0 \<le> len \<or> population s0 = []"
    "best_fitness_history s0 = []" "avg_fitness_history s0 = []" by simp_all
  from f0 n have ne0: "population s0 \<noteq> []" by auto
  with f0 have len0: "0 \<le> len" by simp
  then have "0 \<le> chromosome_length ?s \<or> population ?s = []"
    using f0 by (simp add: setFitnessFunction_def)
  from initialize_individuals_succeeds [OF this, of "- 1" "1" g] obtain p g1
    where ii: "initialize_individuals (chromosome_length ?s) (- 1) 1 (population ?s) g = Inr (p, g1)"
    by auto
  let ?s1 = "?s\<lparr>population := p\<rparr>"
  have init: "initializePopulation (- 1) 1 ?s g = Inr (?s1, g1)"
    by (simp add: initializePopulation_def ii)
  have "(- 1 :: real) \<le> 1" by simp
  from initialize_individuals_ok [OF this ii] f0
  have lp: "length p = length (population s0)"
    and cl: "list_all (\<lambda>ind. length (chromosome ind) = nat len) p"
    by (simp_all add: list_all_iff setFitnessFunction_def)
  from lp ne0 have pne: "population ?s1 \<noteq> []" by auto
  have ff1: "fitness_function ?s1 = Some f" by (simp add: setFitnessFunction_def)
  from evaluateFitness_succeeds [OF pne ff1] obtain s2 where ev: "evaluateFitness ?s1 = Inr s2"
    by blast
  have ff: "fitness_function ?s = Some f" by (simp add: setFitnessFunction_def)
  have run: "evolve_upto 0 ?s g = Inr (s2, g1)"
    by (simp add: evolve_upto_def ff init ev)
  from evolve_upto_parts [OF new run] have inv: "ga_inv cfg len f s2" by auto
  from evaluateFitness_parts [OF ev ff1]
  have p2: "population s2 = map (\<lambda>ind. ind\<lparr>fitness := f (chromosome ind)\<rparr>) p"
    and c2: "config s2 = config ?s1" "chromosome_length s2 = chromosome_length ?s1"
    by simp_all
  from cl fit have "list_all (\<lambda>individual. length (chromosome individual) = nat len
                      \<and> - 1 < fitness individual) (population s2)"
    by (simp add: p2 list_all_iff)
  moreover from pne have "population s2 \<noteq> []" by (simp add: p2)
  ultimately have "ga_ready s2"
    using c2 f0 ts by (simp add: ga_ready_def setFitnessFunction_def)
  with init ev inv show ?thesis by blast
qed

lemma evolve_upto_succeeds:
  assumes new: "GeneticAlgorithm_new len cfg = Inr s0" and n: "1 \<le> population_size cfg"
    and ts: "1 \<le> tournament_size cfg" and fit: "\<forall>c. - 1 < f c"
  shows "\<exists>s g'. evolve_upto k (setFitnessFunction (Some f) s0) g = Inr (s, g')"
proof -
  from evolve_upto_start_succeeds [OF assms, of g] obtain s1 g1 s2
    where init: "initializePopulation (- 1) 1 (setFitnessFunction (Some f) s0) g = Inr (s1, g1)"
      and ev: "evaluateFitness s1 = Inr s2" and inv: "ga_inv cfg len f s2" and rd: "ga_ready s2"
    by blast
  from evolve_loop_succeeds [OF inv rd fit, of k g1] obtain s g'
    where "evolve_loop k s2 g1 = Inr (s, g')" by blast
  moreover have "fitness_function (setFitnessFunction (Some f) s0) = Some f"
    by (simp add: setFitnessFunction_def)
  ultimately have "evolve_upto k (setFitnessFunction (Some f) s0) g = Inr (s, g')"
    using init ev by (simp add: evolve_upto_def)
  then show ?thesis by blast
qed

text \<open>
  \<open>evolve_upto (Suc k)\<close> is \<open>evolve_upto k\<close> followed by one more generation: the state
  after \<open>k\<close> passes of a longer run is the result of \<open>evolve_upto k\<close>.
\<close>

lemma evolve_upto_Suc:
  "evolve_upto (Suc k) s g =
     (case evolve_upto k s g of Inl e \<Rightarrow> Inl e | Inr (s', g') \<Rightarrow> generation s' g')"
proof (cases "fitness_function s")
  case None
  then show ?thesis by (simp add: evolve_upto_def)
next
  case (Some f)
  show ?thesis
  proof (cases "initializePopulation (- 1) 1 s g")
    case (Inl e)
    with Some show ?thesis by (simp add: evolve_upto_def)
  next
    case (Inr r)
    obtain s1 g1 where r: "r = (s1, g1)" by (cases r)
    show ?thesis
    proof (cases "evaluateFitness s1")
      case (Inl e)
      with Some Inr r show ?thesis by (simp add: evolve_upto_def)
    next
      case ev: (Inr s2)
      have "evolve_upto (Suc k) s g = evolve_loop (Suc k) s2 g1"
        using Some Inr r ev by (simp add: evolve_upto_def)
      also have "\<dots> = (case evolve_loop k s2 g1 of Inl e \<Rightarrow> Inl e
                         | Inr (s', g') \<Rightarrow> generation s' g')"
        by (rule evolve_loop_snoc)
      also have "evolve_loop k s2 g1 = evolve_upto k s g"
        using Some Inr r ev by (simp add: evolve_upto_def)
      finally show ?thesis .
    qed
  qed
qed

subsection \<open>The small run, step by step\<close>

lemma ga_small_new:
  "GeneticAlgorithm_new 1 cfg_small = Inr (ga_small\<lparr>fitness_function := None\<rparr>)"
  by (simp add: GeneticAlgorithm_new_def cfg_small_def ga_small_def Individual_new_def)

lemma rd0 [simp]: "randomDouble a b (sconst 0) = (a, sconst 0)"
  by (simp add: randomDouble_def unit_draw_def)

lemma ri0 [simp]: "randomInt 0 n (sconst 0) = (0, sconst 0)"
  by (simp add: randomInt_def)

lemma init_small:
  "initializePopulation (- 1) 1 ga_small (sconst 0)
    = Inr (ga_small\<lparr>population := [\<lparr>chromosome = [- 1], fitness = 0\<rparr>]\<rparr>, sconst 0)"
  by (simp add: initializePopulation_def ga_small_def randomVector_def)

lemma eval_small:
  "evaluateFitness (ga_small\<lparr>population := [\<lparr>chromosome = [- 1], fitness = 0\<rparr>]\<rparr>)
    = Inr ga_small_evaluated"
  by (simp add: evaluateFitness_def ga_small_def ga_small_evaluated_def fit_low_def Let_def)

lemma breed_small:
  "breed ga_small_evaluated (sconst 0)
    = Inr ((\<lparr>chromosome = [- 2], fitness = 1 / 2\<rparr>, \<lparr>chromosome = [- 2], fitness = 1 / 2\<rparr>), sconst 0)"
  by (simp add: breed_def tournamentSelection_def crossover_def mutate_def ga_small_def cfg_small_def
      ga_small_evaluated_def Individual_new_def clamp_def)

lemma offspring_small:
  "make_offspring ga_small_evaluated [] (sconst 0)
    = Inr ([\<lparr>chromosome = [- 2], fitness = 1 / 2\<rparr>], sconst 0)"
proof -
  have n: "population_size (config ga_small_evaluated) = 1"
    by (simp add: ga_small_evaluated_def ga_small_def cfg_small_def)
  have stop: "make_offspring ga_small_evaluated [\<lparr>chromosome = [- 2], fitness = 1 / 2\<rparr>] (sconst 0)
      = Inr ([\<lparr>chromosome = [- 2], fitness = 1 / 2\<rparr>], sconst 0)"
    by (subst make_offspring.simps) (simp add: n)
  show ?thesis
    by (subst make_offspring.simps) (simp add: n breed_small stop)
qed

lemma generation_small: "generation ga_small_evaluated (sconst 0) = Inr (ga_small_final, sconst 0)"
  by (simp add: generation_def offspring_small)
     (simp add: ga_small_evaluated_def ga_small_final_def ga_small_def cfg_small_def fit_low_def
        replacePopulation_def sort_descending_def truncate_to_int_def Let_def
        double_round_0 double_round_three_halves)

lemma evolve_small: "evolve ga_small (sconst 0) = Inr (ga_small_final, sconst 0)"
proof -
  have "fitness_function ga_small = Some fit_low" and "nat (max_generations (config ga_small)) = 1"
    by (simp_all add: ga_small_def cfg_small_def)
  then show ?thesis
    by (simp add: evolve_def evolve_upto_def init_small eval_small generation_small)
qed

subsection \<open>The run of three individuals, step by step\<close>

lemma ga_three_new:
  "GeneticAlgorithm_new 1 cfg_three = Inr (ga_three\<lparr>fitness_function := None\<rparr>)"
  by (simp add: GeneticAlgorithm_new_def cfg_three_def ga_three_def Individual_new_def numeral_eq_Suc)

lemma init_three:
  "initializePopulation (- 1) 1 ga_three (sconst 0)
    = Inr (ga_three\<lparr>population := [\<lparr>chromosome = [- 1], fitness = 0\<rparr>,
             \<lparr>chromosome = [- 1], fitness = 0\<rparr>, \<lparr>chromosome = [- 1], fitness = 0\<rparr>]\<rparr>, sconst 0)"
  by (simp add: initializePopulation_def ga_three_def randomVector_def)

lemma eval_three:
  "evaluateFitness (ga_three\<lparr>population := [\<lparr>chromosome = [- 1], fitness = 0\<rparr>,
             \<lparr>chromosome = [- 1], fitness = 0\<rparr>, \<lparr>chromosome = [- 1], fitness = 0\<rparr>]\<rparr>)
    = Inr ga_three_evaluated"
  by (simp add: evaluateFitness_def ga_three_def ga_three_evaluated_def fit_low_def Let_def)

lemma breed_three:
  "breed ga_three_evaluated (sconst 0)
    = Inr ((\<lparr>chromosome = [- 5], fitness = 1 / 2\<rparr>, \<lparr>chromosome = [- 5], fitness = 1 / 2\<rparr>), sconst 0)"
  by (simp add: breed_def tournamentSelection_def crossover_def mutate_def ga_three_def cfg_three_def
      ga_three_evaluated_def Individual_new_def clamp_def numeral_eq_Suc)

lemma offspring_three:
  "make_offspring ga_three_evaluated [] (sconst 0)
    = Inr ([\<lparr>chromosome = [- 5], fitness = 1 / 2\<rparr>, \<lparr>chromosome = [- 5], fitness = 1 / 2\<rparr>,
            \<lparr>chromosome = [- 5], fitness = 1 / 2\<rparr>], sconst 0)"
proof -
  let ?c = "\<lparr>chromosome = [- 5], fitness = 1 / 2\<rparr>"
  have n: "population_size (config ga_three_evaluated) = 3"
    by (simp add: ga_three_evaluated_def ga_three_def cfg_three_def)
  have stop: "make_offspring ga_three_evaluated [?c, ?c, ?c] (sconst 0) = Inr ([?c, ?c, ?c], sconst 0)"
    by (subst make_offspring.simps) (simp add: n)
  have second: "make_offspring ga_three_evaluated [?c, ?c] (sconst 0) = Inr ([?c, ?c, ?c], sconst 0)"
    by (subst make_offspring.simps) (simp add: n breed_three stop)
  show ?thesis
    by (subst make_offspring.simps) (simp add: n breed_three second)
qed

lemma generation_three: "generation ga_three_evaluated (sconst 0) = Inr (ga_three_final, sconst 0)"
  by (simp add: generation_def offspring_three)
     (simp add: ga_three_evaluated_def ga_three_final_def ga_three_def cfg_three_def fit_low_def
        replacePopulation_def sort_descending_def truncate_to_int_def Let_def
        double_round_0 double_round_three_halves)

lemma evolve_upto_three: "evolve_upto 1 ga_three (sconst 0) = Inr (ga_three_final, sconst 0)"
proof -
  have "fitness_function ga_three = Some fit_low" by (simp add: ga_three_def)
  then show ?thesis
    by (simp add: evolve_upto_def init_three eval_three generation_three)
qed

subsection \<open>A run from any state of the optimizer\<close>

text \<open>
  \<open>evolve\<close> may be called on an optimizer that has run before. It draws a new
  population, and leaves the best-ever fitness and the histories as they are until it
  changes them.
\<close>

lemma evolve_upto_run:
  assumes "evolve_upto k s g = Inr (s', g')"
  shows "\<exists>f p g1 s2. fitness_function s = Some f
     \<and> initialize_individuals (chromosome_length s) (- 1) 1 (population s) g = Inr (p, g1)
     \<and> evaluateFitness (s\<lparr>population := p\<rparr>) = Inr s2
     \<and> evolve_loop k s2 g1 = Inr (s', g')"
proof -
  from assms obtain f where ff: "fitness_function s = Some f"
    by (auto simp: evolve_upto_def split: option.splits)
  with assms obtain s1 g1 where init: "initializePopulation (- 1) 1 s g = Inr (s1, g1)"
    by (auto simp: evolve_upto_def split: sum.splits)
  with assms ff obtain s2 where ev: "evaluateFitness s1 = Inr s2"
    and loop: "evolve_loop k s2 g1 = Inr (s', g')"
    by (auto simp: evolve_upto_def split: sum.splits)
  from initializePopulation_parts [OF init] obtain p where
    "initialize_individuals (chromosome_length s) (- 1) 1 (population s) g = Inr (p, g1)"
    and "s1 = s\<lparr>population := p\<rparr>" by blast
  with ff ev loop show ?thesis by blast
qed

lemma evaluateFitness_frame:
  assumes "evaluateFitness s = Inr s'"
  shows "config s' = config s \<and> chromosome_length s' = chromosome_length s
     \<and> fitness_function s' = fitness_function s
     \<and> best_fitness_history s' = best_fitness_history s
     \<and> avg_fitness_history s' = avg_fitness_history s
     \<and> best_fitness s \<le> best_fitness s'"
  using assms
  by (auto simp: evaluateFitness_def Let_def split: sum.splits list.splits if_splits)

lemma generation_frame:
  assumes "generation s g = Inr (s', g')"
  shows "config s' = config s \<and> chromosome_length s' = chromosome_length s
     \<and> fitness_function s' = fitness_function s"
proof -
  from generation_parts [OF assms] obtain off ev where
    s': "s' = (replacePopulation ev s)
          \<lparr>best_fitness_history := best_fitness_history s @ [best_fitness s],
           avg_fitness_history := avg_fitness_history s
             @ [fold (\<lambda>ind total. total + fitness ind) (population (replacePopulation ev s)) 0
                / real (length (population (replacePopulation ev s)))]\<rparr>"
    by blast
  have fr: "replacePopulation ev s = s\<lparr>population := population (replacePopulation ev s)\<rparr>"
    by (rule replacePopulation_frame)
  have "config (replacePopulation ev s) = config s"
    and "chromosome_length (replacePopulation ev s) = chromosome_length s"
    and "fitness_function (replacePopulation ev s) = fitness_function s"
    by (subst fr, simp)+
  then show ?thesis by (simp add: s')
qed

lemma evolve_loop_frame:
  "evolve_loop k s g = Inr (s', g') \<Longrightarrow>
   config s' = config s \<and> chromosome_length s' = chromosome_length s
   \<and> fitness_function s' = fitness_function s
   \<and> (\<exists>avgs. avg_fitness_history s' = avg_fitness_history s @ avgs \<and> length avgs = k)"
proof (induction k arbitrary: s g)
  case 0
  then show ?case by simp
next
  case (Suc k)
  from Suc.prems obtain s1 g1 where gen: "generation s g = Inr (s1, g1)"
    and rest: "evolve_loop k s1 g1 = Inr (s', g')"
    by (auto split: sum.splits)
  from generation_history [OF gen] obtain a where
    a: "avg_fitness_history s1 = avg_fitness_history s @ [a]" by blast
  from Suc.IH [OF rest] obtain avgs where
    fr: "config s' = config s1" "chromosome_length s' = chromosome_length s1"
      "fitness_function s' = fitness_function s1"
    and h: "avg_fitness_history s' = avg_fitness_history s1 @ avgs" "length avgs = k"
    by blast
  from h a have "avg_fitness_history s' = avg_fitness_history s @ (a # avgs)"
    and "length (a # avgs) = Suc k" by simp_all
  with fr generation_frame [OF gen] show ?case by metis
qed

text \<open>What a run of \<open>k\<close> generations does to the histories, whatever the state before.\<close>

lemma evolve_upto_histories:
  assumes run: "evolve_upto k s g = Inr (s', g')"
  shows "best_fitness_history s' = best_fitness_history s @ replicate k (best_fitness s')
     \<and> (\<exists>avgs. avg_fitness_history s' = avg_fitness_history s @ avgs \<and> length avgs = k)
     \<and> best_fitness s \<le> best_fitness s'
     \<and> config s' = config s \<and> chromosome_length s' = chromosome_length s
     \<and> fitness_function s' = fitness_function s"
proof -
  from evolve_upto_run [OF run] obtain f p g1 s2 where
    ev: "evaluateFitness (s\<lparr>population := p\<rparr>) = Inr s2"
    and loop: "evolve_loop k s2 g1 = Inr (s', g')" by blast
  from evaluateFitness_frame [OF ev] have
    e: "config s2 = config s" "chromosome_length s2 = chromosome_length s"
      "fitness_function s2 = fitness_function s"
      "best_fitness_history s2 = best_fitness_history s"
      "avg_fitness_history s2 = avg_fitness_history s"
      "best_fitness s \<le> best_fitness s2" by simp_all
  from evolve_loop_history [OF loop] have
    h: "best_fitness s' = best_fitness s2"
      "best_fitness_history s' = best_fitness_history s2 @ replicate k (best_fitness s2)"
    by simp_all
  from evolve_loop_frame [OF loop] e h show ?thesis by simp
qed

text \<open>
  A run completes on every optimizer that has at least one individual, as many as its
  configuration says, a chromosome length that is not negative, a tournament size of at
  least 1 and a fitness function above -1; and it leaves such an optimizer.
\<close>

lemma evolve_upto_start_general:
  assumes ff: "fitness_function s = Some f"
    and lp: "length (population s) = nat (population_size (config s))"
    and n0: "0 \<le> population_size (config s)"
    and ii: "initialize_individuals (chromosome_length s) (- 1) 1 (population s) g = Inr (p, g1)"
    and ev: "evaluateFitness (s\<lparr>population := p\<rparr>) = Inr s2"
  shows "ga_inv (config s) (chromosome_length s) f s2
     \<and> population s2 = map (\<lambda>ind. ind\<lparr>fitness := f (chromosome ind)\<rparr>) p
     \<and> length p = length (population s)
     \<and> list_all (\<lambda>ind. length (chromosome ind) = nat (chromosome_length s)) p"
proof -
  have "(- 1 :: real) \<le> 1" by simp
  from initialize_individuals_ok [OF this ii]
  have len: "length p = length (population s)"
    and cl: "list_all (\<lambda>ind. length (chromosome ind) = nat (chromosome_length s)) p"
    and ap: "list_all (\<lambda>ind. list_all (\<lambda>x. - 1 \<le> x \<and> x \<le> 1) (chromosome ind)) p"
    by (simp_all add: list_all_iff)
  have ff1: "fitness_function (s\<lparr>population := p\<rparr>) = Some f" using ff by simp
  from evaluateFitness_parts [OF ev ff1] have
    p2: "population s2 = map (\<lambda>ind. ind\<lparr>fitness := f (chromosome ind)\<rparr>) p"
    and fr: "config s2 = config s" "chromosome_length s2 = chromosome_length s"
      "fitness_function s2 = Some f"
    using ff by simp_all
  have "list_all genes_in_range p"
    unfolding list_all_iff genes_in_range_def
  proof (intro ballI)
    fix ind x assume "ind \<in> set p" and "x \<in> set (chromosome ind)"
    with ap have "- 1 \<le> x \<and> x \<le> 1" by (simp add: list_all_iff)
    then show "- 5 \<le> x \<and> x \<le> 5" by simp
  qed
  then have r: "list_all genes_in_range (population s2)"
    by (simp add: p2 list_all_iff genes_in_range_def)
  have e: "list_all (evaluated_by f) (population s2)"
    by (simp add: p2 list_all_iff evaluated_by_def)
  from len lp have l: "length (population s2) = nat (population_size (config s))"
    by (simp add: p2)
  from fr n0 r e l have "ga_inv (config s) (chromosome_length s) f s2" by (simp add: ga_inv_def)
  with p2 len cl show ?thesis by simp
qed

lemma evolve_upto_succeeds_general:
  assumes ff: "fitness_function s = Some f"
    and n: "1 \<le> population_size (config s)"
    and lp: "length (population s) = nat (population_size (config s))"
    and cl: "0 \<le> chromosome_length s"
    and ts: "1 \<le> tournament_size (config s)" and fit: "\<forall>c. - 1 < f c"
  shows "\<exists>s' g'. evolve_upto k s g = Inr (s', g')
     \<and> length (population s') = nat (population_size (config s))"
proof -
  from cl have "0 \<le> chromosome_length s \<or> population s = []" by simp
  from initialize_individuals_succeeds [OF this, of "- 1" "1" g] obtain p g1
    where ii: "initialize_individuals (chromosome_length s) (- 1) 1 (population s) g = Inr (p, g1)"
    by auto
  have init: "initializePopulation (- 1) 1 s g = Inr (s\<lparr>population := p\<rparr>, g1)"
    by (simp add: initializePopulation_def ii)
  have "(- 1 :: real) \<le> 1" by simp
  from initialize_individuals_ok [OF this ii]
  have len: "length p = length (population s)" by simp
  from n lp have "population s \<noteq> []" by auto
  with len have pne: "population (s\<lparr>population := p\<rparr>) \<noteq> []" by auto
  have ff1: "fitness_function (s\<lparr>population := p\<rparr>) = Some f" using ff by simp
  from evaluateFitness_succeeds [OF pne ff1] obtain s2
    where ev: "evaluateFitness (s\<lparr>population := p\<rparr>) = Inr s2" by blast
  from n have n0: "0 \<le> population_size (config s)" by simp
  from evolve_upto_start_general [OF ff lp n0 ii ev] have
    inv: "ga_inv (config s) (chromosome_length s) f s2"
    and p2: "population s2 = map (\<lambda>ind. ind\<lparr>fitness := f (chromosome ind)\<rparr>) p"
    and clp: "list_all (\<lambda>ind. length (chromosome ind) = nat (chromosome_length s)) p"
    by simp_all
  from inv have c2: "config s2 = config s" "chromosome_length s2 = chromosome_length s"
    by (simp_all add: ga_inv_def)
  from clp fit have "list_all (\<lambda>individual. length (chromosome individual) = nat (chromosome_length s)
                      \<and> - 1 < fitness individual) (population s2)"
    by (simp add: p2 list_all_iff)
  moreover from pne have "population s2 \<noteq> []" by (simp add: p2)
  ultimately have rd: "ga_ready s2" using c2 ts by (simp add: ga_ready_def)
  from evolve_loop_succeeds [OF inv rd fit, of k g1] obtain s' g'
    where loop: "evolve_loop k s2 g1 = Inr (s', g')" by blast
  from evolve_loop_inv [OF inv loop]
  have "length (population s') = nat (population_size (config s))" by (simp add: ga_inv_def)
  moreover have "evolve_upto k s g = Inr (s', g')"
    using ff init ev loop by (simp add: evolve_upto_def)
  ultimately show ?thesis by blast
qed

subsection \<open>An optimizer of one individual with one gene, step by step\<close>

text \<open>
  With one individual, no crossover, a mutation rate of 1, noise of half-width 1, no
  elites and tournaments of one draw, a generation spends seven words of the stream
  and the fifth is the noise added to the gene.
\<close>

lemma unit_draw_less_1 [simp]: "unit_draw w < 1"
  using unit_draw_range [of w] by simp

lemma unit_draw_not_neg [simp]: "\<not> unit_draw w < 0"
  using unit_draw_range [of w] by simp

lemma init_single:
  assumes "population s = [individual]" and "chromosome_length s = 1"
  shows "initializePopulation (- 1) 1 s g
     = Inr (s\<lparr>population := [\<lparr>chromosome = [unit_draw (shd g) * 2 - 1], fitness = 0\<rparr>]\<rparr>, stl g)"
  using assms by (simp add: initializePopulation_def randomVector_def randomDouble_def)

lemma breed_single:
  assumes "population_size (config s) = 1" and "crossover_rate (config s) = 0"
    and "mutation_rate (config s) = 1" and "mutation_strength (config s) = 1"
    and "tournament_size (config s) = 1" and "chromosome_length s = 1"
    and "population s = [\<lparr>chromosome = [x], fitness = fx\<rparr>]" and "- 1 < fx"
  shows "breed s g
     = Inr ((\<lparr>chromosome = [clamp (x + (unit_draw (shd (stl (stl (stl (stl g))))) * 2 - 1)) (- 5) 5],
              fitness = fx\<rparr>,
             \<lparr>chromosome = [clamp (x + (unit_draw
                 (shd (stl (stl (stl (stl (stl (stl g))))))) * 2 - 1)) (- 5) 5],
              fitness = fx\<rparr>),
            stl (stl (stl (stl (stl (stl (stl g)))))))"
  using assms
  by (simp add: breed_def tournamentSelection_def crossover_def mutate_def randomDouble_def
      randomInt_def Individual_new_def)

lemma offspring_single:
  assumes "population_size (config s) = 1" and "crossover_rate (config s) = 0"
    and "mutation_rate (config s) = 1" and "mutation_strength (config s) = 1"
    and "tournament_size (config s) = 1" and "chromosome_length s = 1"
    and "population s = [\<lparr>chromosome = [x], fitness = fx\<rparr>]" and "- 1 < fx"
  shows "make_offspring s [] g
     = Inr ([\<lparr>chromosome = [clamp (x + (unit_draw (shd (stl (stl (stl (stl g))))) * 2 - 1)) (- 5) 5],
              fitness = fx\<rparr>],
            stl (stl (stl (stl (stl (stl (stl g)))))))"
proof -
  let ?c = "\<lparr>chromosome = [clamp (x + (unit_draw (shd (stl (stl (stl (stl g))))) * 2 - 1)) (- 5) 5],
              fitness = fx\<rparr>"
  let ?g = "stl (stl (stl (stl (stl (stl (stl g))))))"
  have stop: "make_offspring s [?c] ?g = Inr ([?c], ?g)"
    by (subst make_offspring.simps) (simp add: assms(1))
  show ?thesis
    by (subst make_offspring.simps) (simp add: assms(1) breed_single [OF assms] stop)
qed

lemma generation_single:
  assumes "population_size (config s) = 1" and "crossover_rate (config s) = 0"
    and "mutation_rate (config s) = 1" and "mutation_strength (config s) = 1"
    and "tournament_size (config s) = 1" and "chromosome_length s = 1"
    and "population s = [\<lparr>chromosome = [x], fitness = fx\<rparr>]" and "- 1 < fx"
    and "elitism_rate (config s) = 0" and "fitness_function s = Some f"
    and "x' = clamp (x + (unit_draw (shd (stl (stl (stl (stl g))))) * 2 - 1)) (- 5) 5"
  shows "generation s g
     = Inr (s\<lparr>population := [\<lparr>chromosome = [x'], fitness = f [x']\<rparr>],
              best_fitness_history := best_fitness_history s @ [best_fitness s],
              avg_fitness_history := avg_fitness_history s @ [f [x']]\<rparr>,
            stl (stl (stl (stl (stl (stl (stl g)))))))"
  using assms(9-11)
  by (simp add: generation_def offspring_single [OF assms(1-8)] assms(1)
      replacePopulation_def sort_descending_def truncate_to_int_def Let_def double_round_0)

text \<open>The same steps, stated for any optimizer whose population is one individual.\<close>

lemma single_population:
  assumes "length (population s) = 1" and "length (chromosome (hd (population s))) = 1"
  shows "population s = [\<lparr>chromosome = [hd (chromosome (hd (population s)))],
                           fitness = fitness (hd (population s))\<rparr>]"
proof -
  from assms(1) obtain individual where p: "population s = [individual]"
    by (cases "population s") simp_all
  with assms(2) obtain x where "chromosome individual = [x]"
    by (cases "chromosome individual") simp_all
  with p show ?thesis by simp
qed

lemma init_one:
  assumes "length (population s) = 1" and "chromosome_length s = 1"
  shows "initializePopulation (- 1) 1 s g
     = Inr (s\<lparr>population := [\<lparr>chromosome = [unit_draw (shd g) * 2 - 1], fitness = 0\<rparr>]\<rparr>, stl g)"
proof -
  from assms(1) obtain individual where "population s = [individual]"
    by (cases "population s") simp_all
  from init_single [OF this assms(2)] show ?thesis .
qed

lemma eval_one:
  assumes "length (population s) = 1" and "fitness_function s \<noteq> None"
  shows "evaluateFitness s
     = Inr (let c = chromosome (hd (population s)); v = the (fitness_function s) c
            in if best_fitness s < v
               then s\<lparr>population := [\<lparr>chromosome = c, fitness = v\<rparr>], best_fitness := v,
                       best_individual := \<lparr>chromosome = c, fitness = v\<rparr>\<rparr>
               else s\<lparr>population := [\<lparr>chromosome = c, fitness = v\<rparr>]\<rparr>)"
proof -
  from assms(1) obtain individual where p: "population s = [individual]"
    by (cases "population s") simp_all
  from assms(2) obtain f where f: "fitness_function s = Some f" by auto
  from p f show ?thesis by (simp add: evaluateFitness_def Let_def)
qed

lemma generation_one:
  assumes "population_size (config s) = 1" and "crossover_rate (config s) = 0"
    and "mutation_rate (config s) = 1" and "mutation_strength (config s) = 1"
    and "tournament_size (config s) = 1" and "chromosome_length s = 1"
    and "elitism_rate (config s) = 0" and "fitness_function s \<noteq> None"
    and "length (population s) = 1" and "length (chromosome (hd (population s))) = 1"
    and "- 1 < fitness (hd (population s))"
  shows "generation s g
     = Inr (let x' = clamp (hd (chromosome (hd (population s)))
                        + (unit_draw (shd (stl (stl (stl (stl g))))) * 2 - 1)) (- 5) 5;
                v = the (fitness_function s) [x']
            in s\<lparr>population := [\<lparr>chromosome = [x'], fitness = v\<rparr>],
                 best_fitness_history := best_fitness_history s @ [best_fitness s],
                 avg_fitness_history := avg_fitness_history s @ [v]\<rparr>,
            stl (stl (stl (stl (stl (stl (stl g)))))))"
proof -
  from assms(8) obtain f where f: "fitness_function s = Some f" by auto
  note p = single_population [OF assms(9,10)]
  from generation_single [OF assms(1-6) p assms(11,7) f refl, of g] f
  show ?thesis by (simp add: Let_def)
qed

subsection \<open>The runs of the examples\<close>

lemma word_half_draw [simp]: "unit_draw (2147483648 :: 32 word) = 1 / 2"
  by (simp add: unit_draw_def)

lemma word_quarter_draw [simp]: "unit_draw (1073741824 :: 32 word) = 1 / 4"
  by (simp add: unit_draw_def)

lemma word_zero_draw [simp]: "unit_draw (0 :: 32 word) = 0"
  by (simp add: unit_draw_def)



lemma evolve_small_still:
  "evolve ga_small (0 ## sconst 2147483648) = Inr (ga_small_still, sconst 2147483648)"
  by (simp add: evolve_def evolve_upto_def ga_small_def cfg_small_def ga_small_evaluated_def
      ga_small_still_def init_one eval_one generation_one fit_low_def clamp_def Let_def)

lemma evolve_small_seeded:
  "evolve ga_small (engine_seed_then_zeros 1073741824) = Inr (ga_small_seeded, sconst 0)"
  by (simp add: evolve_def evolve_upto_def ga_small_def cfg_small_def ga_small_seeded_def
      engine_seed_then_zeros_def init_one eval_one generation_one fit_low_def clamp_def Let_def)

lemma evolve_small_seeded_again:
  "evolve ga_small_seeded (engine_seed_then_zeros 1073741824)
     = Inr (ga_small_seeded_again, sconst 0)"
  by (simp add: evolve_def evolve_upto_def ga_small_def cfg_small_def ga_small_seeded_def
      ga_small_seeded_again_def engine_seed_then_zeros_def init_one eval_one generation_one
      fit_low_def clamp_def Let_def)




subsection \<open>What the best-ever fitness depends on\<close>

text \<open>
  The initial population is a function of the first \<open>N * len\<close> words of the stream,
  and the best-ever fitness after a run is the larger of its value before the run and
  the largest fitness in the initial population.
\<close>

lemma random_cells_stake:
  "random_cells n lo hi g = (map (\<lambda>w. lo + unit_draw w * (hi - lo)) (stake n g), sdrop n g)"
  by (induction n arbitrary: g) (simp_all add: randomDouble_def)

lemma stake_product_split:
  assumes "stake (Suc k * n) g1 = stake (Suc k * n) g2"
  shows "stake n g1 = stake n g2 \<and> stake (k * n) (sdrop n g1) = stake (k * n) (sdrop n g2)"
proof -
  have a: "stake (n + k * n) g1 = stake n g1 @ stake (k * n) (sdrop n g1)"
    by (rule stake_add [symmetric])
  have b: "stake (n + k * n) g2 = stake n g2 @ stake (k * n) (sdrop n g2)"
    by (rule stake_add [symmetric])
  from assms have "stake (n + k * n) g1 = stake (n + k * n) g2" by simp
  then have "stake n g1 @ stake (k * n) (sdrop n g1) = stake n g2 @ stake (k * n) (sdrop n g2)"
    unfolding a b .
  then show ?thesis by (simp del: stake_add)
qed

lemma initialize_individuals_prefix:
  assumes "length inds1 = length inds2"
  shows "stake (length inds1 * nat n) g1 = stake (length inds1 * nat n) g2 \<Longrightarrow>
     initialize_individuals n lo hi inds1 g1 = Inr (p1, h1) \<Longrightarrow>
     initialize_individuals n lo hi inds2 g2 = Inr (p2, h2) \<Longrightarrow>
     map chromosome p1 = map chromosome p2"
  using assms
proof (induction inds1 inds2 arbitrary: g1 g2 p1 p2 rule: list_induct2)
  case Nil
  then show ?case by simp
next
  case (Cons a inds1 b inds2)
  from Cons.prems(2) obtain v1 g1' rest1 where rv1: "randomVector n lo hi g1 = Inr (v1, g1')"
    and rec1: "initialize_individuals n lo hi inds1 g1' = Inr (rest1, h1)"
    and p1: "p1 = a\<lparr>chromosome := v1, fitness := 0\<rparr> # rest1"
    by (auto split: sum.splits)
  from Cons.prems(3) obtain v2 g2' rest2 where rv2: "randomVector n lo hi g2 = Inr (v2, g2')"
    and rec2: "initialize_individuals n lo hi inds2 g2' = Inr (rest2, h2)"
    and p2: "p2 = b\<lparr>chromosome := v2, fitness := 0\<rparr> # rest2"
    by (auto split: sum.splits)
  from rv1 have c1: "v1 = map (\<lambda>w. lo + unit_draw w * (hi - lo)) (stake (nat n) g1)"
    and s1: "g1' = sdrop (nat n) g1"
    by (auto simp: randomVector_def random_cells_stake split: if_splits)
  from rv2 have c2: "v2 = map (\<lambda>w. lo + unit_draw w * (hi - lo)) (stake (nat n) g2)"
    and s2: "g2' = sdrop (nat n) g2"
    by (auto simp: randomVector_def random_cells_stake split: if_splits)
  from Cons.prems(1) have "stake (Suc (length inds1) * nat n) g1 = stake (Suc (length inds1) * nat n) g2"
    by simp
  from stake_product_split [OF this] have hd: "stake (nat n) g1 = stake (nat n) g2"
    and tl: "stake (length inds1 * nat n) g1' = stake (length inds1 * nat n) g2'"
    unfolding s1 s2 by simp_all
  from Cons.IH [OF tl rec1 rec2] have "map chromosome rest1 = map chromosome rest2" .
  with hd show ?case by (simp add: p1 p2 c1 c2)
qed

lemma evolve_upto_best:
  assumes run: "evolve_upto k s g = Inr (s', g')"
  shows "\<exists>f p g1. fitness_function s = Some f
     \<and> initialize_individuals (chromosome_length s) (- 1) 1 (population s) g = Inr (p, g1)
     \<and> best_fitness s' = max (best_fitness s) (Max (f ` set (map chromosome p)))"
proof -
  from evolve_upto_run [OF run] obtain f p g1 s2 where
    ff: "fitness_function s = Some f"
    and ii: "initialize_individuals (chromosome_length s) (- 1) 1 (population s) g = Inr (p, g1)"
    and ev: "evaluateFitness (s\<lparr>population := p\<rparr>) = Inr s2"
    and loop: "evolve_loop k s2 g1 = Inr (s', g')" by blast
  have ff1: "fitness_function (s\<lparr>population := p\<rparr>) = Some f" using ff by simp
  from evaluateFitness_parts [OF ev ff1]
  have p2: "population s2 = map (\<lambda>ind. ind\<lparr>fitness := f (chromosome ind)\<rparr>) p" by simp
  have "fitness ` set (population s2) = f ` set (map chromosome p)"
    unfolding p2 by (auto simp: image_iff)
  with evaluateFitness_best [OF ev]
  have "best_fitness s2 = max (best_fitness s) (Max (f ` set (map chromosome p)))" by simp
  with evolve_loop_history [OF loop] ff ii show ?thesis by auto
qed

lemma evolve_upto_best_agree:
  assumes r1: "evolve_upto k1 s1 g1 = Inr (s1', h1)"
    and r2: "evolve_upto k2 s2 g2 = Inr (s2', h2)"
    and len: "chromosome_length s1 = chromosome_length s2"
    and ff: "fitness_function s1 = fitness_function s2"
    and n: "length (population s1) = length (population s2)"
    and pre: "stake (length (population s1) * nat (chromosome_length s1)) g1
        = stake (length (population s1) * nat (chromosome_length s1)) g2"
  shows "\<exists>m. best_fitness s1' = max (best_fitness s1) m \<and> best_fitness s2' = max (best_fitness s2) m"
proof -
  from evolve_upto_best [OF r1] obtain f p1 g1' where
    f1: "fitness_function s1 = Some f"
    and i1: "initialize_individuals (chromosome_length s1) (- 1) 1 (population s1) g1 = Inr (p1, g1')"
    and b1: "best_fitness s1' = max (best_fitness s1) (Max (f ` set (map chromosome p1)))"
    by blast
  from evolve_upto_best [OF r2] f1 ff obtain p2 g2' where
    i2: "initialize_individuals (chromosome_length s2) (- 1) 1 (population s2) g2 = Inr (p2, g2')"
    and b2: "best_fitness s2' = max (best_fitness s2) (Max (f ` set (map chromosome p2)))"
    by auto
  from initialize_individuals_prefix [OF n pre i1 i2 [folded len]]
  have "map chromosome p1 = map chromosome p2" .
  with b1 b2 show ?thesis by auto
qed


subsection \<open>The claims about the optimizer\<close>

lemma ga_small_constructed:
  "map_sum id (setFitnessFunction (Some fit_low)) (GeneticAlgorithm_new 1 cfg_small) = Inr ga_small"
  by (simp add: ga_small_new setFitnessFunction_def ga_small_def)

lemma ga_small_set: "setFitnessFunction (Some fit_low) (ga_small\<lparr>fitness_function := None\<rparr>) = ga_small"
  by (simp add: setFitnessFunction_def ga_small_def)

lemma evolve_upto_small: "evolve_upto 1 ga_small (sconst 0) = Inr (ga_small_final, sconst 0)"
  using evolve_small by (simp add: evolve_def ga_small_def cfg_small_def)

text \<open>
  Claim C1. The best-ever fitness is not the largest fitness evaluated in the run: in
  the small run the initial individual scores 1/2, its only offspring scores 1 and
  becomes the population, and the best-ever fitness and individual are still those of
  the initial pass. Only \<open>evaluateFitness\<close> compares with the best-ever fitness, and
  \<open>evolve\<close> calls it once, before the loop.
\<close>

theorem best_tracking_misses_offspring:
  "map_sum id (setFitnessFunction (Some fit_low)) (GeneticAlgorithm_new 1 cfg_small) = Inr ga_small
   \<and> evolve ga_small (sconst 0) = Inr (ga_small_final, sconst 0)
   \<and> population ga_small_final = [\<lparr>chromosome = [- 2], fitness = 1\<rparr>]
   \<and> fit_low [- 2] = 1
   \<and> best_fitness ga_small_final = 1 / 2
   \<and> best_individual ga_small_final = \<lparr>chromosome = [- 1], fitness = 1 / 2\<rparr>
   \<and> best_fitness ga_small_final < Max (fitness ` set (population ga_small_final))"
  using ga_small_constructed evolve_small
  by (simp add: ga_small_final_def ga_small_evaluated_def fit_low_def)

text \<open>
  The general fact behind it: the generations of \<open>evolve\<close> never change the best-ever
  fitness or individual that the initial evaluation left.
\<close>

lemma evolve_best_fixed_after_initial:
  assumes "evolve_upto k s g = Inr (s', g')"
  shows "\<exists>s2 g2. evolve_upto 0 s g = Inr (s2, g2)
     \<and> best_fitness s' = best_fitness s2 \<and> best_individual s' = best_individual s2"
proof -
  from assms obtain f where ff: "fitness_function s = Some f"
    by (auto simp: evolve_upto_def split: option.splits)
  with assms obtain s1 g1 where init: "initializePopulation (- 1) 1 s g = Inr (s1, g1)"
    by (auto simp: evolve_upto_def split: sum.splits)
  with assms ff obtain s2 where ev: "evaluateFitness s1 = Inr s2"
    and loop: "evolve_loop k s2 g1 = Inr (s', g')"
    by (auto simp: evolve_upto_def split: sum.splits)
  from ff init ev have "evolve_upto 0 s g = Inr (s2, g1)" by (simp add: evolve_upto_def)
  with evolve_loop_history [OF loop] show ?thesis by simp
qed

text \<open>
  Claim C2, as stated, fails: a fresh individual has fitness 0, which is a valid
  accuracy, and so has every individual that \<open>initializePopulation\<close> has just drawn.
\<close>

theorem unevaluated_fitness_is_a_valid_score:
  "fitness Individual_new \<in> {0..1}
   \<and> initializePopulation (- 1) 1 ga_small (sconst 0)
       = Inr (ga_small\<lparr>population := [\<lparr>chromosome = [- 1], fitness = 0\<rparr>]\<rparr>, sconst 0)
   \<and> fitness \<lparr>chromosome = [- 1], fitness = 0\<rparr> \<in> {0..1}"
  using init_small by (simp add: Individual_new_def)

lemma initialize_individuals_fitness:
  "initialize_individuals n lo hi inds g = Inr (inds', g') \<Longrightarrow>
   list_all (\<lambda>ind. fitness ind = 0) inds'"
proof (induction inds arbitrary: g inds' g')
  case Nil
  then show ?case by simp
next
  case (Cons ind inds)
  from Cons.prems obtain v g1 rest g2 where "randomVector n lo hi g = Inr (v, g1)"
    and rec: "initialize_individuals n lo hi inds g1 = Inr (rest, g2)"
    and res: "inds' = ind\<lparr>chromosome := v, fitness := 0\<rparr> # rest"
    by (auto split: sum.splits)
  from Cons.IH [OF rec] res show ?case by simp
qed

text \<open>
  Claim C2, amended. An individual that has not been evaluated has fitness exactly 0,
  whichever constructor or initialisation made it; and every population the loop of
  \<open>evolve\<close> selects from has been evaluated: each member carries the fitness of its
  own chromosome.
\<close>

theorem unevaluated_fitness_is_zero:
  "fitness Individual_new = 0
   \<and> (\<forall>n individual. Individual_sized n = Inr individual \<longrightarrow> fitness individual = 0)
   \<and> (\<forall>len cfg s0. GeneticAlgorithm_new len cfg = Inr s0 \<longrightarrow>
         list_all (\<lambda>individual. fitness individual = 0) (population s0))
   \<and> (\<forall>lo hi s g s' g'. initializePopulation lo hi s g = Inr (s', g') \<longrightarrow>
         list_all (\<lambda>individual. fitness individual = 0) (population s'))
   \<and> (\<forall>len cfg s0 f k g s g'. GeneticAlgorithm_new len cfg = Inr s0
         \<and> evolve_upto k (setFitnessFunction (Some f) s0) g = Inr (s, g') \<longrightarrow>
         list_all (\<lambda>individual. fitness individual = f (chromosome individual)) (population s))"
proof (intro conjI allI impI)
  show "fitness Individual_new = 0" by (simp add: Individual_new_def)
next
  fix n individual assume "Individual_sized n = Inr individual"
  then show "fitness individual = 0"
    by (auto simp: Individual_sized_def split: if_splits)
next
  fix len cfg s0 assume "GeneticAlgorithm_new len cfg = Inr s0"
  then show "list_all (\<lambda>individual. fitness individual = 0) (population s0)"
    by (auto simp: GeneticAlgorithm_new_def Individual_new_def list_all_iff split: if_splits)
next
  fix lo hi s g s' g' assume "initializePopulation lo hi s g = Inr (s', g')"
  from initializePopulation_parts [OF this] obtain p
    where "initialize_individuals (chromosome_length s) lo hi (population s) g = Inr (p, g')"
      and "s' = s\<lparr>population := p\<rparr>" by blast
  with initialize_individuals_fitness [of "chromosome_length s" lo hi "population s" g p g']
  show "list_all (\<lambda>individual. fitness individual = 0) (population s')" by simp
next
  fix len cfg s0 f k g s g'
  assume a: "GeneticAlgorithm_new len cfg = Inr s0
         \<and> evolve_upto k (setFitnessFunction (Some f) s0) g = Inr (s, g')"
  then have new: "GeneticAlgorithm_new len cfg = Inr s0"
    and run: "evolve_upto k (setFitnessFunction (Some f) s0) g = Inr (s, g')" by simp_all
  from evolve_upto_parts [OF new run] obtain s2 g1
    where loop: "evolve_loop k s2 g1 = Inr (s, g')" and inv: "ga_inv cfg len f s2" by blast
  from evolve_loop_inv [OF inv loop]
  show "list_all (\<lambda>individual. fitness individual = f (chromosome individual)) (population s)"
    by (simp add: ga_inv_def evaluated_by_def list_all_iff)
qed

theorem unevaluated_fitness_is_zero_witness:
  "Individual_sized 2 = Inr \<lparr>chromosome = [0, 0], fitness = 0\<rparr>
   \<and> fitness \<lparr>chromosome = [0, 0], fitness = 0\<rparr> = 0
   \<and> GeneticAlgorithm_new 1 cfg_small = Inr (ga_small\<lparr>fitness_function := None\<rparr>)
   \<and> evolve_upto 1 (setFitnessFunction (Some fit_low) (ga_small\<lparr>fitness_function := None\<rparr>))
        (sconst 0) = Inr (ga_small_final, sconst 0)
   \<and> list_all (\<lambda>individual. fitness individual = fit_low (chromosome individual))
        (population ga_small_final)"
proof -
  have s: "Individual_sized 2 = Inr \<lparr>chromosome = [0, 0], fitness = 0\<rparr>"
    by (simp add: Individual_sized_def numeral_eq_Suc)
  have run: "evolve_upto 1 (setFitnessFunction (Some fit_low) (ga_small\<lparr>fitness_function := None\<rparr>))
        (sconst 0) = Inr (ga_small_final, sconst 0)"
    unfolding ga_small_set by (rule evolve_upto_small)
  from unevaluated_fitness_is_zero
  have z: "\<forall>n individual. Individual_sized n = Inr individual \<longrightarrow> fitness individual = 0"
    and e: "\<forall>len cfg s0 f k g s g'. GeneticAlgorithm_new len cfg = Inr s0
         \<and> evolve_upto k (setFitnessFunction (Some f) s0) g = Inr (s, g') \<longrightarrow>
         list_all (\<lambda>individual. fitness individual = f (chromosome individual)) (population s)"
    by blast+
  from z s have "fitness \<lparr>chromosome = [0, 0], fitness = 0\<rparr> = 0" by blast
  moreover from e ga_small_new run
  have "list_all (\<lambda>individual. fitness individual = fit_low (chromosome individual))
        (population ga_small_final)" by blast
  ultimately show ?thesis using s ga_small_new run by blast
qed










text \<open>
  Claim C9. Two optimizers with the same configuration, chromosome length, fitness
  function, number of individuals and best-ever fitness so far (two freshly constructed
  ones, say) end their runs with the same best-ever fitness when each run follows
  \<open>initRandom\<close> with the same seed, provided the seed is not 0, or the random device
  that seed 0 consults returns the same value both times. In fact the best-ever
  fitness depends on the first \<open>N * len\<close> words of the stream only, those that the
  initial population is drawn from. A second run of the same optimizer after the same
  seed leaves the best-ever fitness of the first. With at least one individual, a
  tournament size of at least 1 and a fitness function above -1 the runs complete.
\<close>

theorem same_seed_same_best_fitness_over_runs:
  assumes cfg: "config s1 = config s2" and len: "chromosome_length s1 = chromosome_length s2"
    and ff: "fitness_function s1 = fitness_function s2"
    and bf: "best_fitness s1 = best_fitness s2"
    and n: "length (population s1) = length (population s2)"
  shows "(seed \<noteq> 0 \<or> rd1 = rd2 \<longrightarrow>
            (\<forall>s1' h1 s2' h2. evolve s1 (initRandom engine seed rd1) = Inr (s1', h1)
                 \<and> evolve s2 (initRandom engine seed rd2) = Inr (s2', h2) \<longrightarrow>
               best_fitness s1' = best_fitness s2'))
     \<and> (\<forall>g1 g2 s1' h1 s2' h2.
            stake (length (population s1) * nat (chromosome_length s1)) g1
              = stake (length (population s1) * nat (chromosome_length s1)) g2
            \<and> evolve s1 g1 = Inr (s1', h1) \<and> evolve s2 g2 = Inr (s2', h2) \<longrightarrow>
            best_fitness s1' = best_fitness s2')
     \<and> (\<forall>g s' h s'' h'. length (population s1) = nat (population_size (config s1))
            \<and> 0 \<le> population_size (config s1)
            \<and> evolve s1 g = Inr (s', h) \<and> evolve s' g = Inr (s'', h') \<longrightarrow>
            best_fitness s'' = best_fitness s')
     \<and> (\<forall>f g. fitness_function s1 = Some f \<and> 1 \<le> population_size (config s1)
            \<and> length (population s1) = nat (population_size (config s1))
            \<and> 0 \<le> chromosome_length s1 \<and> 1 \<le> tournament_size (config s1)
            \<and> (\<forall>c. - 1 < f c) \<longrightarrow>
            (\<exists>s1' h1. evolve s1 g = Inr (s1', h1)))"
proof -
  have prefix: "best_fitness s1' = best_fitness s2'"
    if pre: "stake (length (population s1) * nat (chromosome_length s1)) g1
              = stake (length (population s1) * nat (chromosome_length s1)) g2"
      and r1: "evolve s1 g1 = Inr (s1', h1)" and r2: "evolve s2 g2 = Inr (s2', h2)"
    for g1 g2 s1' h1 s2' h2
  proof -
    from r1 have u1: "evolve_upto (nat (max_generations (config s1))) s1 g1 = Inr (s1', h1)"
      by (simp add: evolve_def)
    from r2 have u2: "evolve_upto (nat (max_generations (config s2))) s2 g2 = Inr (s2', h2)"
      by (simp add: evolve_def)
    from evolve_upto_best_agree [OF u1 u2 len ff n pre] bf show ?thesis by auto
  qed
  have seeded: "best_fitness s1' = best_fitness s2'"
    if sd: "seed \<noteq> 0 \<or> rd1 = rd2"
      and r1: "evolve s1 (initRandom engine seed rd1) = Inr (s1', h1)"
      and r2: "evolve s2 (initRandom engine seed rd2) = Inr (s2', h2)"
    for s1' h1 s2' h2
  proof -
    from sd have "initRandom engine seed rd1 = initRandom engine seed rd2"
      by (auto simp: initRandom_def)
    then have "stake (length (population s1) * nat (chromosome_length s1)) (initRandom engine seed rd1)
        = stake (length (population s1) * nat (chromosome_length s1)) (initRandom engine seed rd2)"
      by simp
    from prefix [OF this r1 r2] show ?thesis .
  qed
  have again: "best_fitness s'' = best_fitness s'"
    if lp: "length (population s1) = nat (population_size (config s1))"
      and n0: "0 \<le> population_size (config s1)"
      and r1: "evolve s1 g = Inr (s', h)" and r2: "evolve s' g = Inr (s'', h')"
    for g s' h s'' h'
  proof -
    from r1 have u1: "evolve_upto (nat (max_generations (config s1))) s1 g = Inr (s', h)"
      by (simp add: evolve_def)
    from r2 have u2: "evolve_upto (nat (max_generations (config s'))) s' g = Inr (s'', h')"
      by (simp add: evolve_def)
    from evolve_upto_histories [OF u1] have fr: "config s' = config s1"
      "chromosome_length s' = chromosome_length s1" "fitness_function s' = fitness_function s1"
      by simp_all
    from evolve_upto_run [OF u1] obtain f p g1 s2a where
      f: "fitness_function s1 = Some f"
      and ii: "initialize_individuals (chromosome_length s1) (- 1) 1 (population s1) g = Inr (p, g1)"
      and ev: "evaluateFitness (s1\<lparr>population := p\<rparr>) = Inr s2a"
      and loop: "evolve_loop (nat (max_generations (config s1))) s2a g1 = Inr (s', h)" by blast
    from evolve_upto_start_general [OF f lp n0 ii ev]
    have inv: "ga_inv (config s1) (chromosome_length s1) f s2a" by simp
    from evolve_loop_inv [OF inv loop] lp
    have l: "length (population s1) = length (population s')" by (simp add: ga_inv_def)
    from evolve_upto_best_agree [OF u1 u2 fr(2) [symmetric] fr(3) [symmetric] l refl]
    obtain m where "best_fitness s' = max (best_fitness s1) m"
      and "best_fitness s'' = max (best_fitness s') m" by blast
    then show ?thesis by simp
  qed
  have completes: "\<exists>s1' h1. evolve s1 g = Inr (s1', h1)"
    if "fitness_function s1 = Some f" and "1 \<le> population_size (config s1)"
      and "length (population s1) = nat (population_size (config s1))"
      and "0 \<le> chromosome_length s1" and "1 \<le> tournament_size (config s1)"
      and "\<forall>c. - 1 < f c"
    for f g
    using evolve_upto_succeeds_general [OF that, of "nat (max_generations (config s1))" g]
    by (auto simp: evolve_def)
  have A: "seed \<noteq> 0 \<or> rd1 = rd2 \<longrightarrow>
            (\<forall>s1' h1 s2' h2. evolve s1 (initRandom engine seed rd1) = Inr (s1', h1)
                 \<and> evolve s2 (initRandom engine seed rd2) = Inr (s2', h2) \<longrightarrow>
               best_fitness s1' = best_fitness s2')"
    using seeded by blast
  have B: "\<forall>g1 g2 s1' h1 s2' h2.
            stake (length (population s1) * nat (chromosome_length s1)) g1
              = stake (length (population s1) * nat (chromosome_length s1)) g2
            \<and> evolve s1 g1 = Inr (s1', h1) \<and> evolve s2 g2 = Inr (s2', h2) \<longrightarrow>
            best_fitness s1' = best_fitness s2'"
    using prefix by blast
  have C: "\<forall>g s' h s'' h'. length (population s1) = nat (population_size (config s1))
            \<and> 0 \<le> population_size (config s1)
            \<and> evolve s1 g = Inr (s', h) \<and> evolve s' g = Inr (s'', h') \<longrightarrow>
            best_fitness s'' = best_fitness s'"
    using again by blast
  have D: "\<forall>f g. fitness_function s1 = Some f \<and> 1 \<le> population_size (config s1)
            \<and> length (population s1) = nat (population_size (config s1))
            \<and> 0 \<le> chromosome_length s1 \<and> 1 \<le> tournament_size (config s1)
            \<and> (\<forall>c. - 1 < f c) \<longrightarrow>
            (\<exists>s1' h1. evolve s1 g = Inr (s1', h1))"
    using completes by blast
  show ?thesis by (rule conjI [OF A conjI [OF B conjI [OF C D]]])
qed

theorem same_seed_same_best_fitness_over_runs_witness:
  "(1073741824 :: 32 word) \<noteq> 0
   \<and> initRandom engine_seed_then_zeros 1073741824 1 = 1073741824 ## sconst 0
   \<and> initRandom engine_seed_then_zeros 1073741824 2 = 1073741824 ## sconst 0
   \<and> evolve ga_small (initRandom engine_seed_then_zeros 1073741824 1)
       = Inr (ga_small_seeded, sconst 0)
   \<and> evolve ga_small (initRandom engine_seed_then_zeros 1073741824 2)
       = Inr (ga_small_seeded, sconst 0)
   \<and> evolve ga_small_seeded (initRandom engine_seed_then_zeros 1073741824 2)
       = Inr (ga_small_seeded_again, sconst 0)
   \<and> best_fitness ga_small_seeded_again = best_fitness ga_small_seeded
   \<and> best_fitness ga_small_seeded = 1 / 2
   \<and> stake (length (population ga_small) * nat (chromosome_length ga_small)) (sconst 0)
       = stake (length (population ga_small) * nat (chromosome_length ga_small))
           (0 ## sconst 2147483648)
   \<and> evolve ga_small (sconst 0) = Inr (ga_small_final, sconst 0)
   \<and> evolve ga_small (0 ## sconst 2147483648) = Inr (ga_small_still, sconst 2147483648)
   \<and> population ga_small_final = [\<lparr>chromosome = [- 2], fitness = 1\<rparr>]
   \<and> population ga_small_still = [\<lparr>chromosome = [- 1], fitness = 1 / 2\<rparr>]
   \<and> best_fitness ga_small_final = best_fitness ga_small_still
   \<and> best_fitness ga_small_still = 1 / 2
   \<and> fitness_function ga_small = Some fit_low \<and> 1 \<le> population_size (config ga_small)
   \<and> length (population ga_small) = nat (population_size (config ga_small))
   \<and> 0 \<le> chromosome_length ga_small \<and> 1 \<le> tournament_size (config ga_small)
   \<and> (\<forall>c. - 1 < fit_low c)
   \<and> (\<exists>s1' h1. evolve ga_small (sconst 2147483648) = Inr (s1', h1))"
proof -
  have s: "(1073741824 :: 32 word) \<noteq> 0" by simp
  have i: "initRandom engine_seed_then_zeros 1073741824 1 = 1073741824 ## sconst 0"
    "initRandom engine_seed_then_zeros 1073741824 2 = 1073741824 ## sconst 0"
    by (simp_all add: initRandom_def engine_seed_then_zeros_def)
  have e: "initRandom engine_seed_then_zeros 1073741824 1 = engine_seed_then_zeros 1073741824"
    "initRandom engine_seed_then_zeros 1073741824 2 = engine_seed_then_zeros 1073741824"
    by (simp_all add: initRandom_def)
  have r1: "evolve ga_small (initRandom engine_seed_then_zeros 1073741824 1)
       = Inr (ga_small_seeded, sconst 0)"
    unfolding e by (rule evolve_small_seeded)
  have r2: "evolve ga_small_seeded (initRandom engine_seed_then_zeros 1073741824 2)
       = Inr (ga_small_seeded_again, sconst 0)"
    unfolding e by (rule evolve_small_seeded_again)
  have r2': "evolve ga_small_seeded (engine_seed_then_zeros 1073741824)
       = Inr (ga_small_seeded_again, sconst 0)"
    by (rule evolve_small_seeded_again)
  have shape: "length (population ga_small) = nat (population_size (config ga_small))"
    "0 \<le> population_size (config ga_small)"
    by (simp_all add: ga_small_def cfg_small_def)
  have pre: "stake (length (population ga_small) * nat (chromosome_length ga_small)) (sconst 0)
       = stake (length (population ga_small) * nat (chromosome_length ga_small))
           (0 ## sconst 2147483648)"
    by (simp add: ga_small_def)
  have p: "population ga_small_final = [\<lparr>chromosome = [- 2], fitness = 1\<rparr>]"
    "population ga_small_still = [\<lparr>chromosome = [- 1], fitness = 1 / 2\<rparr>]"
    "best_fitness ga_small_still = 1 / 2" "best_fitness ga_small_seeded = 1 / 2"
    by (simp_all add: ga_small_final_def ga_small_still_def ga_small_evaluated_def
        ga_small_seeded_def)
  note t = same_seed_same_best_fitness_over_runs [where ?s1.0 = ga_small and ?s2.0 = ga_small
      and seed = 1073741824 and ?rd1.0 = 1 and ?rd2.0 = 2 and engine = engine_seed_then_zeros,
      OF refl refl refl refl refl]
  have sd: "(1073741824 :: 32 word) \<noteq> 0 \<or> (1 :: 32 word) = 2" by simp
  from t [THEN conjunct1, rule_format, OF sd conjI [OF r1]]
  have seeded: "\<And>s2' h2. evolve ga_small (initRandom engine_seed_then_zeros 1073741824 2) = Inr (s2', h2)
      \<Longrightarrow> best_fitness ga_small_seeded = best_fitness s2'" .
  have r1': "evolve ga_small (initRandom engine_seed_then_zeros 1073741824 2)
       = Inr (ga_small_seeded, sconst 0)"
    unfolding e by (rule evolve_small_seeded)
  from t [THEN conjunct2, THEN conjunct2, THEN conjunct1, rule_format,
      OF conjI [OF shape(1) conjI [OF shape(2) conjI [OF evolve_small_seeded r2']]]]
  have again: "best_fitness ga_small_seeded_again = best_fitness ga_small_seeded" .
  from t [THEN conjunct2, THEN conjunct1, rule_format,
      OF conjI [OF pre conjI [OF evolve_small evolve_small_still]]]
  have same: "best_fitness ga_small_final = best_fitness ga_small_still" .
  have rd: "fitness_function ga_small = Some fit_low" "1 \<le> population_size (config ga_small)"
    "0 \<le> chromosome_length ga_small" "1 \<le> tournament_size (config ga_small)"
    by (simp_all add: ga_small_def cfg_small_def)
  have fit: "\<forall>c. - 1 < fit_low c" by (simp add: fit_low_def split: list.split)
  from t [THEN conjunct2, THEN conjunct2, THEN conjunct2, rule_format,
      OF conjI [OF rd(1) conjI [OF rd(2) conjI [OF shape(1) conjI [OF rd(3) conjI [OF rd(4) fit]]]]]]
  have go: "\<exists>s1' h1. evolve ga_small (sconst 2147483648) = Inr (s1', h1)" .
  show ?thesis
    by (intro conjI)
      (rule s i r1 r1' r2 again pre evolve_small evolve_small_still p same rd shape fit go)+
qed


text \<open>
  Claim C10. After initialisation and after every generation of a run, every gene of
  every individual of the population lies in \<open>[-5, 5]\<close>. With at least one individual,
  a tournament size of at least 1 and a fitness function above -1 the run does reach
  every generation.
\<close>

theorem genes_stay_in_range:
  assumes new: "GeneticAlgorithm_new len cfg = Inr s0"
  shows "(\<forall>s g'. evolve_upto k (setFitnessFunction (Some f) s0) g = Inr (s, g') \<longrightarrow>
            (\<forall>individual \<in> set (population s). \<forall>x \<in> set (chromosome individual).
                - 5 \<le> x \<and> x \<le> 5))
     \<and> (1 \<le> population_size cfg \<and> 1 \<le> tournament_size cfg \<and> (\<forall>c. - 1 < f c) \<longrightarrow>
            (\<exists>s g'. evolve_upto k (setFitnessFunction (Some f) s0) g = Inr (s, g')))"
proof (intro conjI allI impI)
  fix s g' assume run: "evolve_upto k (setFitnessFunction (Some f) s0) g = Inr (s, g')"
  from evolve_upto_parts [OF new run] obtain s2 g1
    where loop: "evolve_loop k s2 g1 = Inr (s, g')" and inv: "ga_inv cfg len f s2" by blast
  from evolve_loop_inv [OF inv loop]
  show "\<forall>individual \<in> set (population s). \<forall>x \<in> set (chromosome individual).
                - 5 \<le> x \<and> x \<le> 5"
    by (simp add: ga_inv_def genes_in_range_def list_all_iff)
next
  assume "1 \<le> population_size cfg \<and> 1 \<le> tournament_size cfg \<and> (\<forall>c. - 1 < f c)"
  with evolve_upto_succeeds [OF new, of f k g]
  show "\<exists>s g'. evolve_upto k (setFitnessFunction (Some f) s0) g = Inr (s, g')" by blast
qed

theorem genes_stay_in_range_witness:
  "GeneticAlgorithm_new 1 cfg_three = Inr (ga_three\<lparr>fitness_function := None\<rparr>)
   \<and> evolve_upto 1 (setFitnessFunction (Some fit_low) (ga_three\<lparr>fitness_function := None\<rparr>))
        (sconst 0) = Inr (ga_three_final, sconst 0)
   \<and> population ga_three_final
        = [\<lparr>chromosome = [- 1], fitness = 1 / 2\<rparr>, \<lparr>chromosome = [- 5], fitness = 1\<rparr>,
           \<lparr>chromosome = [- 5], fitness = 1\<rparr>]
   \<and> list_all (\<lambda>individual. list_all (\<lambda>x. - 5 \<le> x \<and> x \<le> 5) (chromosome individual))
        (population ga_three_final)"
proof -
  have set: "setFitnessFunction (Some fit_low) (ga_three\<lparr>fitness_function := None\<rparr>) = ga_three"
    by (simp add: setFitnessFunction_def ga_three_def)
  have run: "evolve_upto 1 (setFitnessFunction (Some fit_low) (ga_three\<lparr>fitness_function := None\<rparr>))
        (sconst 0) = Inr (ga_three_final, sconst 0)"
    unfolding set by (rule evolve_upto_three)
  have p: "population ga_three_final
        = [\<lparr>chromosome = [- 1], fitness = 1 / 2\<rparr>, \<lparr>chromosome = [- 5], fitness = 1\<rparr>,
           \<lparr>chromosome = [- 5], fitness = 1\<rparr>]"
    by (simp add: ga_three_final_def)
  from genes_stay_in_range [OF ga_three_new, of 1 fit_low "sconst 0"] run
  have "\<forall>individual \<in> set (population ga_three_final). \<forall>x \<in> set (chromosome individual).
                - 5 \<le> x \<and> x \<le> 5" by blast
  then have "list_all (\<lambda>individual. list_all (\<lambda>x. - 5 \<le> x \<and> x \<le> 5) (chromosome individual))
        (population ga_three_final)" by (simp add: list_all_iff)
  with ga_three_new run p show ?thesis by blast
qed

end
